theory Spec2Isabelle
  imports Complex_Main
begin

section \<open>Python values used by the file browser\<close>

text \<open>
  A Python \<open>str\<close> is a sequence of Unicode code points, and \<open>len\<close>, indexing and slicing
  count code points. A character is therefore modelled by its code point (a natural
  number) and a string by the list of its code points. The literals of the source that
  contain characters beyond ASCII are written out as code points.
\<close>

type_synonym pychar = nat
type_synonym pystr = "pychar list"

definition py :: "string \<Rightarrow> pystr" where
  "py s = map of_char s"

text \<open>The exceptions that the modelled code can raise or let through.\<close>

datatype exn =
    UnsupportedFormatException
  | FileConversionException
  | FileNotFoundError
  | TypeError
  | IndexError
  | ReError
  | UnmodelledPattern
  | OtherException

text \<open>\<open>xs[i]\<close>: a negative index counts from the end, an index out of range raises.\<close>

definition py_getitem :: "'a list \<Rightarrow> int \<Rightarrow> exn + 'a" where
  "py_getitem xs i =
     (if 0 \<le> i \<and> i < int (length xs) then Inr (xs ! nat i)
      else if i < 0 \<and> - int (length xs) \<le> i then Inr (xs ! nat (int (length xs) + i))
      else Inl IndexError)"

text \<open>\<open>xs[a:b]\<close>: both bounds are clamped into the sequence, negative ones count from the end.\<close>

definition py_clamp_index :: "nat \<Rightarrow> int \<Rightarrow> nat" where
  "py_clamp_index n i = (if i < 0 then nat (max (i + int n) 0) else nat (min i (int n)))"

definition py_slice :: "'a list \<Rightarrow> int \<Rightarrow> int \<Rightarrow> 'a list" where
  "py_slice xs a b =
     (let lo = py_clamp_index (length xs) a; hi = py_clamp_index (length xs) b
      in take (hi - lo) (drop lo xs))"

text \<open>\<open>range(a, b)\<close>.\<close>

definition py_range :: "int \<Rightarrow> int \<Rightarrow> int list" where
  "py_range a b = [a..b - 1]"

text \<open>\<open>sep.join(pieces)\<close>.\<close>

fun py_join :: "pystr \<Rightarrow> pystr list \<Rightarrow> pystr" where
  "py_join sep [] = []"
| "py_join sep [p] = p"
| "py_join sep (p # q # ps) = p @ sep @ py_join sep (q # ps)"

text \<open>\<open>s.replace(old, new)\<close>: every occurrence, left to right, without overlaps.\<close>

fun py_replace :: "pystr \<Rightarrow> pystr \<Rightarrow> pystr \<Rightarrow> pystr" where
  "py_replace old new [] = (if old = [] then new else [])"
| "py_replace old new (c # cs) =
     (if old = [] then new @ c # py_replace old new cs
      else if take (length old) (c # cs) = old
        then new @ py_replace old new (drop (length old - 1) cs)
      else c # py_replace old new cs)"

subsection \<open>The Unicode tables\<close>

text \<open>
  \<open>\W\<close>, \<open>str.lower\<close> and \<open>str.strip\<close> consult the Unicode database of the Python
  runtime. The ASCII part of these tables is written out; the rest is a parameter:
  \<open>uni_word c\<close> says whether the code point \<open>c \<ge> 128\<close> is alphanumeric,
  \<open>uni_space c\<close> whether it is white space, and \<open>uni_lower s i\<close> is the lower-case
  mapping of the code point at position \<open>i\<close> of \<open>s\<close> (one to three code points, and
  for the capital sigma dependent on its neighbours).
\<close>

record unicode_db =
  uni_word :: "pychar \<Rightarrow> bool"
  uni_space :: "pychar \<Rightarrow> bool"
  uni_lower :: "pystr \<Rightarrow> nat \<Rightarrow> pystr"

definition is_word :: "unicode_db \<Rightarrow> pychar \<Rightarrow> bool" where
  "is_word U c =
     (if c < 128
      then (48 \<le> c \<and> c \<le> 57) \<or> (65 \<le> c \<and> c \<le> 90) \<or> (97 \<le> c \<and> c \<le> 122) \<or> c = 95
      else uni_word U c)"

definition is_space :: "unicode_db \<Rightarrow> pychar \<Rightarrow> bool" where
  "is_space U c =
     (if c < 128 then (9 \<le> c \<and> c \<le> 13) \<or> (28 \<le> c \<and> c \<le> 32) else uni_space U c)"

definition lower_at :: "unicode_db \<Rightarrow> pystr \<Rightarrow> nat \<Rightarrow> pystr" where
  "lower_at U s i =
     (let c = s ! i
      in if c < 128 then [if 65 \<le> c \<and> c \<le> 90 then c + 32 else c] else uni_lower U s i)"

definition py_lower :: "unicode_db \<Rightarrow> pystr \<Rightarrow> pystr" where
  "py_lower U s = concat (map (lower_at U s) [0..<length s])"

definition py_strip :: "unicode_db \<Rightarrow> pystr \<Rightarrow> pystr" where
  "py_strip U s = rev (dropWhile (is_space U) (rev (dropWhile (is_space U) s)))"

subsection \<open>Regular expressions\<close>

text \<open>\<open>re.sub(r"\*", "__STAR__", query)\<close>.\<close>

definition re_sub_star :: "pystr \<Rightarrow> pystr" where
  "re_sub_star query = concat (map (\<lambda>c. if c = 42 then py ''__STAR__'' else [c]) query)"

text \<open>
  \<open>re.split(r"\W+", s)\<close>: the pieces between the maximal runs of non-word characters;
  the flag says that the previous character already belonged to such a run.
\<close>

fun re_split_nonword :: "unicode_db \<Rightarrow> bool \<Rightarrow> pystr \<Rightarrow> pystr list" where
  "re_split_nonword U in_sep [] = [[]]"
| "re_split_nonword U in_sep (c # cs) =
     (if is_word U c then
        (case re_split_nonword U False cs of
           [] \<Rightarrow> [[c]]
         | p # ps \<Rightarrow> (c # p) # ps)
      else if in_sep then re_split_nonword U True cs
      else [] # re_split_nonword U True cs)"

text \<open>
  The patterns handed to \<open>re.search\<close> are built from literal characters and \<open>.*\<close>.
  The model covers the patterns over ordinary characters, \<open>.\<close> and \<open>*\<close>: an atom is a
  literal or the dot (any character but the newline), possibly starred. A star with
  nothing to repeat is \<open>re.error\<close>; any other metacharacter is outside the model.
\<close>

datatype atom = Lit pychar | AnyChar

definition is_other_meta :: "pychar \<Rightarrow> bool" where
  "is_other_meta c = (c \<in> set (py ''^$+?{}[]|()'') \<or> c = 92)"

fun re_compile :: "pystr \<Rightarrow> exn + (atom \<times> bool) list" where
  "re_compile [] = Inr []"
| "re_compile (c # cs) =
     (if c = 42 then Inl ReError
      else if is_other_meta c then Inl UnmodelledPattern
      else
        (let a = (if c = 46 then AnyChar else Lit c)
         in case cs of
              d # ds \<Rightarrow>
                if d = 42 then
                  (case re_compile ds of Inl e \<Rightarrow> Inl e | Inr r \<Rightarrow> Inr ((a, True) # r))
                else
                  (case re_compile cs of Inl e \<Rightarrow> Inl e | Inr r \<Rightarrow> Inr ((a, False) # r))
            | [] \<Rightarrow> Inr [(a, False)]))"

fun atom_matches :: "atom \<Rightarrow> pychar \<Rightarrow> bool" where
  "atom_matches (Lit c) d = (c = d)"
| "atom_matches AnyChar d = (d \<noteq> 10)"

text \<open>Does the compiled pattern match some prefix of the text?\<close>

fun re_match_here :: "(atom \<times> bool) list \<Rightarrow> pystr \<Rightarrow> bool" where
  "re_match_here [] s = True"
| "re_match_here ((a, False) # r) [] = False"
| "re_match_here ((a, False) # r) (c # cs) = (atom_matches a c \<and> re_match_here r cs)"
| "re_match_here ((a, True) # r) [] = re_match_here r []"
| "re_match_here ((a, True) # r) (c # cs) =
     ((atom_matches a c \<and> re_match_here ((a, True) # r) cs) \<or> re_match_here r (c # cs))"

text \<open>Does it match at some position of the text?\<close>

fun re_search_from :: "(atom \<times> bool) list \<Rightarrow> pystr \<Rightarrow> bool" where
  "re_search_from r [] = re_match_here r []"
| "re_search_from r (c # cs) = (re_match_here r (c # cs) \<or> re_search_from r cs)"

definition re_search :: "pystr \<Rightarrow> pystr \<Rightarrow> exn + bool" where
  "re_search pattern s =
     (case re_compile pattern of Inl e \<Rightarrow> Inl e | Inr r \<Rightarrow> Inr (re_search_from r s))"

section \<open>The world outside the browser\<close>

text \<open>
  The operating system, the clock and the document converter are not part of the
  repository: what they answer during one call is a parameter of the model. A call that
  may fail answers with an exception or a value.
\<close>

record conversion =
  title :: "pystr option"
  text_content :: pystr

record env =
  getcwd :: pystr
  expanduser :: "pystr \<Rightarrow> pystr"
  isabs :: "pystr \<Rightarrow> bool"
  isfile :: "pystr \<Rightarrow> bool"
  isdir :: "pystr \<Rightarrow> bool"
  abspath :: "pystr \<Rightarrow> pystr"
  path_join :: "pystr \<Rightarrow> pystr \<Rightarrow> pystr"
  dirname :: "pystr \<Rightarrow> pystr"
  path_sep :: pystr
  time_now :: real
  listdir :: "pystr \<Rightarrow> exn + pystr list"
  mtime_text :: "pystr \<Rightarrow> exn + pystr"
  size_text :: "pystr \<Rightarrow> exn + pystr"
  convert_stream :: "pystr \<Rightarrow> pystr \<Rightarrow> exn + conversion"
  convert_local :: "pystr \<Rightarrow> exn + conversion"

section \<open>The state of a MarkdownFileBrowser\<close>

text \<open>
  The attributes of the object. The three attributes whose names start with an
  underscore in the source carry the prefix \<open>priv_\<close>. \<open>find_on_page_query\<close> and
  \<open>find_on_page_viewport\<close> (no underscore) are the two attributes that \<open>set_path\<close>
  assigns.
\<close>

record browser =
  viewport_size :: "int option"
  history :: "(pystr \<times> real) list"
  page_title :: "pystr option"
  viewport_current_page :: int
  viewport_pages :: "(int \<times> int) list"
  priv_page_content :: pystr
  priv_find_on_page_query :: "pystr option"
  priv_find_on_page_last_result :: "int option"
  find_on_page_query :: "pystr option"
  find_on_page_viewport :: "pystr option"

text \<open>
  A method leaves the object in some state whether it returns or raises, or it does not
  come back at all.
\<close>

datatype 'a outcome = Returns 'a browser | Raises exn browser | Diverges

fun state_after :: "'a outcome \<Rightarrow> browser option" where
  "state_after (Returns v b) = Some b"
| "state_after (Raises e b) = Some b"
| "state_after Diverges = None"

section \<open>Pagination\<close>

text \<open>The characters after which \<open>_split_pages\<close> may end a page.\<close>

definition page_break_chars :: "pychar set" where
  "page_break_chars = {32, 9, 13, 10}"

text \<open>The inner loop of \<open>_split_pages\<close>: move \<open>end_idx\<close> forward to the end of the word.\<close>

function adjust_end_idx :: "pystr \<Rightarrow> int \<Rightarrow> exn + int" where
  "adjust_end_idx content end_idx =
     (if end_idx < int (length content) then
        (case py_getitem content (end_idx - 1) of
           Inl e \<Rightarrow> Inl e
         | Inr c \<Rightarrow>
             if c \<notin> page_break_chars then adjust_end_idx content (end_idx + 1)
             else Inr end_idx)
      else Inr end_idx)"
  by pat_completeness auto
termination
  by (relation "measure (\<lambda>(content, end_idx). nat (int (length content) - end_idx))") auto

declare adjust_end_idx.simps [simp del]

text \<open>
  The outer loop, with the pages built so far. It has no bound of its own: with a
  viewport size below one it can go on for ever, which is the value \<open>None\<close>. An
  exception leaves the pages built so far behind.
\<close>

partial_function (option) split_pages_loop ::
  "int \<Rightarrow> pystr \<Rightarrow> int \<Rightarrow> (int \<times> int) list \<Rightarrow> ((int \<times> int) list \<times> exn option) option" where
  "split_pages_loop vsize content start_idx pages =
     (if start_idx < int (length content) then
        (case adjust_end_idx content (min (start_idx + vsize) (int (length content))) of
           Inl e \<Rightarrow> Some (pages, Some e)
         | Inr end_idx \<Rightarrow> split_pages_loop vsize content end_idx (pages @ [(start_idx, end_idx)]))
      else Some (pages, None))"

declare split_pages_loop.simps [code]

definition split_pages :: "browser \<Rightarrow> unit outcome" where
  "split_pages b =
     (if length (priv_page_content b) = 0 then Returns () (b\<lparr>viewport_pages := [(0, 0)]\<rparr>)
      else
        (case viewport_size b of
           None \<Rightarrow> Raises TypeError (b\<lparr>viewport_pages := []\<rparr>)
         | Some vsize \<Rightarrow>
             (case split_pages_loop vsize (priv_page_content b) 0 [] of
                None \<Rightarrow> Diverges
              | Some (pages, None) \<Rightarrow> Returns () (b\<lparr>viewport_pages := pages\<rparr>)
              | Some (pages, Some e) \<Rightarrow> Raises e (b\<lparr>viewport_pages := pages\<rparr>))))"

definition set_page_content :: "pystr \<Rightarrow> bool \<Rightarrow> browser \<Rightarrow> unit outcome" where
  "set_page_content content do_split b =
     (let b1 = b\<lparr>priv_page_content := content\<rparr>;
          clamp = (\<lambda>b2.
            if viewport_current_page b2 \<ge> int (length (viewport_pages b2))
            then b2\<lparr>viewport_current_page := int (length (viewport_pages b2)) - 1\<rparr>
            else b2)
      in if do_split then
           (case split_pages b1 of
              Returns u b2 \<Rightarrow> Returns () (clamp b2)
            | Raises e b2 \<Rightarrow> Raises e b2
            | Diverges \<Rightarrow> Diverges)
         else Returns () (clamp (b1\<lparr>viewport_pages := [(0, int (length (priv_page_content b1)))]\<rparr>)))"

section \<open>Navigation\<close>

definition page_down :: "browser \<Rightarrow> browser" where
  "page_down b =
     b\<lparr>viewport_current_page :=
         min (viewport_current_page b + 1) (int (length (viewport_pages b)) - 1)\<rparr>"

definition page_up :: "browser \<Rightarrow> browser" where
  "page_up b = b\<lparr>viewport_current_page := max (viewport_current_page b - 1) 0\<rparr>"

text \<open>The property \<open>viewport\<close>: the text of the current page.\<close>

definition viewport :: "browser \<Rightarrow> exn + pystr" where
  "viewport b =
     (case py_getitem (viewport_pages b) (viewport_current_page b) of
        Inl e \<Rightarrow> Inl e
      | Inr bounds \<Rightarrow> Inr (py_slice (priv_page_content b) (fst bounds) (snd bounds)))"

text \<open>A sequence of \<open>page_up\<close> and \<open>page_down\<close> calls.\<close>

datatype paging = PageUp | PageDown

fun paging_step :: "paging \<Rightarrow> browser \<Rightarrow> browser" where
  "paging_step PageUp b = page_up b"
| "paging_step PageDown b = page_down b"

fun paging_calls :: "paging list \<Rightarrow> browser \<Rightarrow> browser" where
  "paging_calls [] b = b"
| "paging_calls (c # cs) b = paging_calls cs (paging_step c b)"

section \<open>Searching\<close>

text \<open>The normalised query and the normalised text of a page, as \<open>_find_next_viewport\<close> builds them.\<close>

definition nquery_of :: "unicode_db \<Rightarrow> pystr \<Rightarrow> pystr" where
  "nquery_of U query =
     (let nquery = re_sub_star query;
          nquery = [32] @ py_strip U (py_join [32] (re_split_nonword U False nquery)) @ [32];
          nquery = py_replace (py '' __STAR__ '') (py ''__STAR__ '') nquery;
          nquery = py_lower U (py_replace (py ''__STAR__'') (py ''.*'') nquery)
      in nquery)"

definition ncontent_of :: "unicode_db \<Rightarrow> pystr \<Rightarrow> pystr" where
  "ncontent_of U content =
     [32] @ py_lower U (py_strip U (py_join [32] (re_split_nonword U False content))) @ [32]"

text \<open>The loop over \<open>idxs\<close>: the first page whose normalised text the pattern matches.\<close>

fun scan_viewports :: "unicode_db \<Rightarrow> pystr \<Rightarrow> browser \<Rightarrow> int list \<Rightarrow> exn + int option" where
  "scan_viewports U nquery b [] = Inr None"
| "scan_viewports U nquery b (i # idxs) =
     (case py_getitem (viewport_pages b) i of
        Inl e \<Rightarrow> Inl e
      | Inr bounds \<Rightarrow>
          (let content = py_slice (priv_page_content b) (fst bounds) (snd bounds);
               ncontent = ncontent_of U content
           in case re_search nquery ncontent of
                Inl e \<Rightarrow> Inl e
              | Inr found \<Rightarrow> if found then Inr (Some i) else scan_viewports U nquery b idxs))"

definition find_next_viewport ::
  "unicode_db \<Rightarrow> pystr option \<Rightarrow> int \<Rightarrow> browser \<Rightarrow> exn + int option" where
  "find_next_viewport U query starting_viewport b =
     (case query of
        None \<Rightarrow> Inr None
      | Some q \<Rightarrow>
          (let nquery = nquery_of U q
           in if py_strip U nquery = [] then Inr None
              else scan_viewports U nquery b
                     (py_range starting_viewport (int (length (viewport_pages b)))
                      @ py_range 0 starting_viewport)))"

definition find_next :: "unicode_db \<Rightarrow> browser \<Rightarrow> pystr option outcome" where
  "find_next U b =
     (case priv_find_on_page_query b of
        None \<Rightarrow> Returns None b
      | Some q \<Rightarrow>
          (let starting_viewport =
                 (case priv_find_on_page_last_result b of
                    None \<Rightarrow> 0
                  | Some r \<Rightarrow> if r + 1 \<ge> int (length (viewport_pages b)) then 0 else r + 1)
           in case find_next_viewport U (priv_find_on_page_query b) starting_viewport b of
                Inl e \<Rightarrow> Raises e b
              | Inr None \<Rightarrow> Returns None (b\<lparr>priv_find_on_page_last_result := None\<rparr>)
              | Inr (Some viewport_match) \<Rightarrow>
                  (let b1 = b\<lparr>viewport_current_page := viewport_match,
                               priv_find_on_page_last_result := Some viewport_match\<rparr>
                   in case viewport b1 of
                        Inl e \<Rightarrow> Raises e b1
                      | Inr v \<Rightarrow> Returns (Some v) b1)))"

definition find_on_page :: "unicode_db \<Rightarrow> pystr \<Rightarrow> browser \<Rightarrow> pystr option outcome" where
  "find_on_page U query b =
     (if Some query = priv_find_on_page_query b
         \<and> Some (viewport_current_page b) = priv_find_on_page_last_result b
      then find_next U b
      else
        (let b0 = b\<lparr>priv_find_on_page_query := Some query\<rparr>
         in case find_next_viewport U (Some query) (viewport_current_page b0) b0 of
              Inl e \<Rightarrow> Raises e b0
            | Inr None \<Rightarrow> Returns None (b0\<lparr>priv_find_on_page_last_result := None\<rparr>)
            | Inr (Some viewport_match) \<Rightarrow>
                (let b1 = b0\<lparr>viewport_current_page := viewport_match,
                              priv_find_on_page_last_result := Some viewport_match\<rparr>
                 in case viewport b1 of
                      Inl e \<Rightarrow> Raises e b1
                    | Inr v \<Rightarrow> Returns (Some v) b1)))"

section \<open>Opening a path\<close>

text \<open>The loop of \<open>_fetch_local_dir\<close> over the directory entries, and the listing it extends.\<close>

fun listing_rows :: "env \<Rightarrow> pystr \<Rightarrow> pystr list \<Rightarrow> pystr \<Rightarrow> exn + pystr" where
  "listing_rows E local_path [] listing = Inr listing"
| "listing_rows E local_path (entry # entries) listing =
     (let full_path = path_join E local_path entry
      in case mtime_text E full_path of
           Inl e \<Rightarrow> Inl e
         | Inr mtime \<Rightarrow>
             if isdir E full_path then
               listing_rows E local_path entries
                 (listing @ py ''| '' @ (entry @ path_sep E) @ py '' | '' @ [] @ py '' | ''
                    @ mtime @ py '' |'' @ [10])
             else
               (case size_text E full_path of
                  Inl e \<Rightarrow> Inl e
                | Inr sz \<Rightarrow>
                    listing_rows E local_path entries
                      (listing @ py ''| '' @ entry @ py '' | '' @ sz @ py '' | ''
                         @ mtime @ py '' |'' @ [10])))"

definition fetch_local_dir :: "env \<Rightarrow> pystr \<Rightarrow> exn + pystr" where
  "fetch_local_dir E local_path =
     (let listing = [10] @ [35, 32, 32034, 24341] @ local_path @ [10, 10]
            @ py ''| Name | Size | Date Modified |'' @ [10]
            @ py ''| ---- | ---- | ------------- |'' @ [10]
            @ py ''| .. (parent directory) | | |'' @ [10]
      in case listdir E local_path of
           Inl e \<Rightarrow> Inl e
         | Inr entries \<Rightarrow> listing_rows E local_path entries listing)"

text \<open>The texts of the three placeholder pages of \<open>_open_path\<close>.\<close>

definition unsupported_text :: "pystr \<Rightarrow> pystr" where
  "unsupported_text path =
     [35, 32, 26080, 27861, 39044, 35272, 39] @ path @ [39, 32, 20316, 20026, 32] @ py ''Markdown.''"

definition conversion_error_text :: "pystr \<Rightarrow> pystr" where
  "conversion_error_text path =
     [35, 32, 36716, 25442, 26102, 20986, 38169, 39] @ path @ [39, 32, 21040, 32]
       @ py ''Markdown'' @ [12290]"

definition not_found_text :: "pystr \<Rightarrow> pystr" where
  "not_found_text path = [35, 32, 26410, 25214, 21040, 25991, 20214, 65306, 32] @ path"

text \<open>The body of the \<open>try\<close> statement of \<open>_open_path\<close>.\<close>

definition open_path_try :: "env \<Rightarrow> pystr \<Rightarrow> browser \<Rightarrow> unit outcome" where
  "open_path_try E path b =
     (if isdir E path then
        (case fetch_local_dir E path of
           Inl e \<Rightarrow> Raises e b
         | Inr listing \<Rightarrow>
             (case convert_stream E listing (py ''.txt'') of
                Inl e \<Rightarrow> Raises e b
              | Inr res \<Rightarrow>
                  set_page_content (text_content res) False (b\<lparr>page_title := title res\<rparr>)))
      else
        (case convert_local E path of
           Inl e \<Rightarrow> Raises e b
         | Inr res \<Rightarrow>
             set_page_content (text_content res) True (b\<lparr>page_title := title res\<rparr>)))"

text \<open>\<open>_open_path\<close>: the \<open>try\<close> statement with its three handlers.\<close>

definition priv_open_path :: "env \<Rightarrow> pystr \<Rightarrow> browser \<Rightarrow> unit outcome" where
  "priv_open_path E path b =
     (case open_path_try E path b of
        Returns u b1 \<Rightarrow> Returns u b1
      | Diverges \<Rightarrow> Diverges
      | Raises e b1 \<Rightarrow>
          if e = UnsupportedFormatException then
            set_page_content (unsupported_text path) True
              (b1\<lparr>page_title := Some (py ''UnsupportedFormatException'')\<rparr>)
          else if e = FileConversionException then
            set_page_content (conversion_error_text path) True
              (b1\<lparr>page_title := Some (py ''FileConversionException.'')\<rparr>)
          else if e = FileNotFoundError then
            set_page_content (not_found_text path) True
              (b1\<lparr>page_title := Some (py ''FileNotFoundError'')\<rparr>)
          else Raises e b1)"

text \<open>The property \<open>path\<close>.\<close>

definition path :: "env \<Rightarrow> browser \<Rightarrow> pystr" where
  "path E b = (if length (history b) = 0 then getcwd E else fst (last (history b)))"

text \<open>The path that \<open>set_path\<close> opens for the path it is given.\<close>

definition resolve_path :: "env \<Rightarrow> pystr \<Rightarrow> browser \<Rightarrow> pystr" where
  "resolve_path E p b =
     (let p1 = expanduser E p
      in if \<not> isabs E p1 then
           (if isfile E (path E b) then abspath E (path_join E (dirname E (path E b)) p1)
            else if isdir E (path E b) then abspath E (path_join E (path E b) p1)
            else p1)
         else p1)"

definition set_path :: "env \<Rightarrow> pystr \<Rightarrow> browser \<Rightarrow> unit outcome" where
  "set_path E p b =
     (let p1 = resolve_path E p b;
          b1 = b\<lparr>history := history b @ [(p1, time_now E)]\<rparr>
      in case priv_open_path E p1 b1 of
           Returns u b2 \<Rightarrow>
             Returns () (b2\<lparr>viewport_current_page := 0,
                             find_on_page_query := None,
                             find_on_page_viewport := None\<rparr>)
         | Raises e b2 \<Rightarrow> Raises e b2
         | Diverges \<Rightarrow> Diverges)"

definition open_path :: "env \<Rightarrow> pystr \<Rightarrow> browser \<Rightarrow> pystr outcome" where
  "open_path E p b =
     (case set_path E p b of
        Returns u b1 \<Rightarrow> (case viewport b1 of Inl e \<Rightarrow> Raises e b1 | Inr v \<Rightarrow> Returns v b1)
      | Raises e b1 \<Rightarrow> Raises e b1
      | Diverges \<Rightarrow> Diverges)"

text \<open>
  \<open>__init__\<close>. The attributes assigned after the call of \<open>set_path\<close> do not exist while it
  runs; none of them is read before it is assigned, so the values they start with here
  are never seen.
\<close>

definition init :: "env \<Rightarrow> int option \<Rightarrow> unit outcome" where
  "init E vsize =
     (let b = \<lparr>viewport_size = vsize, history = [], page_title = None,
               viewport_current_page = 0, viewport_pages = [], priv_page_content = [],
               priv_find_on_page_query = None, priv_find_on_page_last_result = None,
               find_on_page_query = None, find_on_page_viewport = None\<rparr>
      in case set_path E (getcwd E) b of
           Returns u b1 \<Rightarrow>
             Returns () (b1\<lparr>priv_page_content := [],
                             priv_find_on_page_query := None,
                             priv_find_on_page_last_result := None\<rparr>)
         | Raises e b1 \<Rightarrow> Raises e b1
         | Diverges \<Rightarrow> Diverges)"

section \<open>Auxiliary notions and example states\<close>

text \<open>
  A list of pages is a chain from \<open>a\<close> to \<open>b\<close> when the first page starts at \<open>a\<close>, every
  page is non-empty and starts where the one before it ends, and the last page ends at
  \<open>b\<close>.
\<close>

fun pages_chain :: "int \<Rightarrow> (int \<times> int) list \<Rightarrow> int \<Rightarrow> bool" where
  "pages_chain a [] b = (a = b)"
| "pages_chain a (p # ps) b = (fst p = a \<and> fst p < snd p \<and> pages_chain (snd p) ps b)"

text \<open>
  A browser with the given viewport size and page content that has no pages yet, has
  visited nothing and has searched for nothing.
\<close>

definition fresh_browser :: "int option \<Rightarrow> pystr \<Rightarrow> browser" where
  "fresh_browser vsize content =
     \<lparr>viewport_size = vsize, history = [], page_title = None,
      viewport_current_page = 0, viewport_pages = [], priv_page_content = content,
      priv_find_on_page_query = None, priv_find_on_page_last_result = None,
      find_on_page_query = None, find_on_page_viewport = None\<rparr>"

definition words_browser :: browser where
  "words_browser = fresh_browser (Some 6) (py ''aaaa bbbb cccc'')"

text \<open>A Unicode database for texts in which only ASCII characters are letters, digits or spaces.\<close>

definition ascii_db :: unicode_db where
  "ascii_db = \<lparr>uni_word = (\<lambda>c. False), uni_space = (\<lambda>c. False), uni_lower = (\<lambda>s i. [s ! i])\<rparr>"

text \<open>
  An environment with one directory, \<open>/\<close>, that holds one file, \<open>/doc.txt\<close>, whose text
  is \<open>foo bar foo\<close>; no other path exists.
\<close>

definition doc_env :: env where
  "doc_env =
     \<lparr>getcwd = py ''/'',
      expanduser = (\<lambda>p. p),
      isabs = (\<lambda>p. take 1 p = py ''/''),
      isfile = (\<lambda>p. p = py ''/doc.txt''),
      isdir = (\<lambda>p. p = py ''/''),
      abspath = (\<lambda>p. p),
      path_join = (\<lambda>p q. p @ q),
      dirname = (\<lambda>p. py ''/''),
      path_sep = py ''/'',
      time_now = 0,
      listdir = (\<lambda>p. if p = py ''/'' then Inr [py ''doc.txt''] else Inl FileNotFoundError),
      mtime_text = (\<lambda>p. if p = py ''/doc.txt'' then Inr (py ''2024-01-01 00:00'') else Inl FileNotFoundError),
      size_text = (\<lambda>p. if p = py ''/doc.txt'' then Inr (py ''11'') else Inl FileNotFoundError),
      convert_stream = (\<lambda>s ext. Inr \<lparr>title = None, text_content = s\<rparr>),
      convert_local = (\<lambda>p. if p = py ''/doc.txt''
                             then Inr \<lparr>title = Some (py ''Doc''), text_content = py ''foo bar foo''\<rparr>
                             else Inl FileNotFoundError)\<rparr>"

text \<open>
  The browser of viewport size 4 that was created in \<open>/\<close> and has opened \<open>/doc.txt\<close>, on
  the given page and with the given search cursor; and the same browser before it has
  opened the file.
\<close>

definition doc_browser :: "int \<Rightarrow> pystr option \<Rightarrow> int option \<Rightarrow> browser" where
  "doc_browser page query last_result =
     \<lparr>viewport_size = Some 4, history = [(py ''/'', 0), (py ''/doc.txt'', 0)],
      page_title = Some (py ''Doc''),
      viewport_current_page = page, viewport_pages = [(0, 4), (4, 8), (8, 11)],
      priv_page_content = py ''foo bar foo'',
      priv_find_on_page_query = query, priv_find_on_page_last_result = last_result,
      find_on_page_query = None, find_on_page_viewport = None\<rparr>"

definition started_browser :: browser where
  "started_browser =
     \<lparr>viewport_size = Some 4, history = [(py ''/'', 0)], page_title = None,
      viewport_current_page = 0, viewport_pages = [(0, 138)], priv_page_content = [],
      priv_find_on_page_query = None, priv_find_on_page_last_result = None,
      find_on_page_query = None, find_on_page_viewport = None\<rparr>"

text \<open>What a search may change: the current page and the search cursor, nothing else.\<close>

definition search_frame :: "browser \<Rightarrow> browser \<Rightarrow> bool" where
  "search_frame b b' =
     (b' = b\<lparr>viewport_current_page := viewport_current_page b',
                priv_find_on_page_query := priv_find_on_page_query b',
                priv_find_on_page_last_result := priv_find_on_page_last_result b'\<rparr>)"

text \<open>The calls to the outside that \<open>_open_path\<close> makes for a path fail with the exception \<open>e\<close>.\<close>

definition load_raises :: "env \<Rightarrow> pystr \<Rightarrow> exn \<Rightarrow> bool" where
  "load_raises E p e =
     (if isdir E p then
        (case fetch_local_dir E p of
           Inl e' \<Rightarrow> e' = e
         | Inr listing \<Rightarrow> convert_stream E listing (py ''.txt'') = Inl e)
      else convert_local E p = Inl e)"

text \<open>\<open>t in s\<close> for strings.\<close>

fun contains_str :: "pystr \<Rightarrow> pystr \<Rightarrow> bool" where
  "contains_str [] t = (t = [])"
| "contains_str (c # cs) t = (take (length t) (c # cs) = t \<or> contains_str cs t)"

text \<open>
  The text of a page, and whether \<open>_find_next_viewport\<close> takes the page for a match of
  the query: the normalised query is not blank and \<open>re.search\<close> finds it in the
  normalised text of the page.
\<close>

definition page_text :: "browser \<Rightarrow> nat \<Rightarrow> pystr" where
  "page_text b i =
     py_slice (priv_page_content b) (fst (viewport_pages b ! i)) (snd (viewport_pages b ! i))"

definition page_matches :: "unicode_db \<Rightarrow> pystr \<Rightarrow> browser \<Rightarrow> nat \<Rightarrow> bool" where
  "page_matches U q b i =
     (py_strip U (nquery_of U q) \<noteq> []
      \<and> re_search (nquery_of U q) (ncontent_of U (page_text b i)) = Inr True)"

text \<open>The page at which \<open>find_next\<close> starts its scan.\<close>

definition scan_start :: "browser \<Rightarrow> nat" where
  "scan_start b =
     (case priv_find_on_page_last_result b of
        None \<Rightarrow> 0
      | Some r \<Rightarrow> if r + 1 \<ge> int (length (viewport_pages b)) then 0 else nat (r + 1))"

text \<open>
  The state after \<open>t\<close> calls of \<open>find_next\<close> in a row, provided that each of them has
  returned a match.
\<close>

fun find_next_matches :: "unicode_db \<Rightarrow> nat \<Rightarrow> browser \<Rightarrow> browser option" where
  "find_next_matches U 0 b = Some b"
| "find_next_matches U (Suc t) b =
     (case find_next U b of
        Returns (Some v) b' \<Rightarrow> find_next_matches U t b'
      | Returns None b' \<Rightarrow> None
      | Raises e b' \<Rightarrow> None
      | Diverges \<Rightarrow> None)"

text \<open>
  A text with every maximal run of non-word characters replaced by one space; the flag
  says that the previous character already belonged to such a run.
\<close>

fun collapse_nonword :: "unicode_db \<Rightarrow> bool \<Rightarrow> pystr \<Rightarrow> pystr" where
  "collapse_nonword U in_sep [] = []"
| "collapse_nonword U in_sep (c # cs) =
     (if is_word U c then c # collapse_nonword U False cs
      else if in_sep then collapse_nonword U True cs
      else 32 # collapse_nonword U True cs)"

text \<open>
  Two browsers with a one-page document: in the first the page holds the word \<open>foobar\<close>,
  in the second \<open>foobar\<close> is glued to a letter before it.
\<close>

definition foobar_browser :: browser where
  "foobar_browser = fresh_browser (Some 16) (py ''some foobar here'')\<lparr>viewport_pages := [(0, 16)]\<rparr>"

definition glued_browser :: browser where
  "glued_browser = fresh_browser (Some 16) (py ''xfoobar'')\<lparr>viewport_pages := [(0, 7)]\<rparr>"

text \<open>
  A page ends safely when it ends at the length of the content or when the character
  that Python reads at \<open>end - 1\<close> is one of the four page break characters.
\<close>

definition page_end_safe :: "pystr \<Rightarrow> int \<times> int \<Rightarrow> bool" where
  "page_end_safe content p =
     (snd p = int (length content)
      \<or> (case py_getitem content (snd p - 1) of
            Inl e \<Rightarrow> False
          | Inr c \<Rightarrow> c \<in> page_break_chars))"

section \<open>Properties of pagination\<close>

lemma adjust_end_idx_result:
  "1 \<le> e0 \<Longrightarrow> e0 \<le> int (length content) \<Longrightarrow>
   \<exists>e. adjust_end_idx content e0 = Inr e \<and> e0 \<le> e \<and> e \<le> int (length content)
       \<and> (e = int (length content) \<or> content ! nat (e - 1) \<in> page_break_chars)"
proof (induction content e0 rule: adjust_end_idx.induct)
  case (1 content end_idx)
  show ?case
  proof (cases "end_idx < int (length content)")
    case False
    with "1.prems" show ?thesis by (subst adjust_end_idx.simps) simp
  next
    case True
    with "1.prems" have g: "py_getitem content (end_idx - 1) = Inr (content ! nat (end_idx - 1))"
      by (simp add: py_getitem_def)
    show ?thesis
    proof (cases "content ! nat (end_idx - 1) \<in> page_break_chars")
      case True
      with \<open>end_idx < int (length content)\<close> g show ?thesis
        by (subst adjust_end_idx.simps) simp
    next
      case False
      with \<open>end_idx < int (length content)\<close> g "1.prems"
      have "\<exists>e. adjust_end_idx content (end_idx + 1) = Inr e \<and> end_idx + 1 \<le> e
                \<and> e \<le> int (length content)
                \<and> (e = int (length content) \<or> content ! nat (e - 1) \<in> page_break_chars)"
        by (intro "1.IH"[of "content ! nat (end_idx - 1)"]) auto
      then obtain e where e: "adjust_end_idx content (end_idx + 1) = Inr e"
        "end_idx + 1 \<le> e" "e \<le> int (length content)"
        "e = int (length content) \<or> content ! nat (e - 1) \<in> page_break_chars"
        by blast
      have "adjust_end_idx content end_idx = Inr e"
        using \<open>end_idx < int (length content)\<close> g False e(1)
        by (subst adjust_end_idx.simps) simp
      with e show ?thesis by auto
    qed
  qed
qed

lemma split_pages_loop_result:
  assumes "1 \<le> vsize"
  shows "0 \<le> start \<Longrightarrow> start \<le> int (length content) \<Longrightarrow>
     \<exists>ps. split_pages_loop vsize content start acc = Some (acc @ ps, None)
        \<and> pages_chain start ps (int (length content))
        \<and> (\<forall>p \<in> set ps. snd p = int (length content)
                \<or> content ! nat (snd p - 1) \<in> page_break_chars)
        \<and> (\<forall>p \<in> set ps. min (fst p + vsize) (int (length content)) \<le> snd p)"
proof (induction "nat (int (length content) - start)" arbitrary: start acc rule: less_induct)
  case less
  show ?case
  proof (cases "start < int (length content)")
    case False
    with less.prems have "start = int (length content)" by simp
    then show ?thesis by (subst split_pages_loop.simps) simp
  next
    case True
    let ?e0 = "min (start + vsize) (int (length content))"
    from True assms less.prems
    have "1 \<le> ?e0" "?e0 \<le> int (length content)" "start < ?e0" by auto
    from adjust_end_idx_result[OF this(1,2)] obtain e where
      e: "adjust_end_idx content ?e0 = Inr e" "?e0 \<le> e" "e \<le> int (length content)"
         "e = int (length content) \<or> content ! nat (e - 1) \<in> page_break_chars" by blast
    with \<open>start < ?e0\<close> have se: "start < e" by linarith
    with e less.prems
    have "nat (int (length content) - e) < nat (int (length content) - start)" by linarith
    from less.hyps[OF this, of "acc @ [(start, e)]"] se less.prems e(3)
    obtain ps where ps:
      "split_pages_loop vsize content e (acc @ [(start, e)]) = Some ((acc @ [(start, e)]) @ ps, None)"
      "pages_chain e ps (int (length content))"
      "\<forall>p \<in> set ps. snd p = int (length content)
            \<or> content ! nat (snd p - 1) \<in> page_break_chars"
      "\<forall>p \<in> set ps. min (fst p + vsize) (int (length content)) \<le> snd p"
      by auto
    have "split_pages_loop vsize content start acc = Some (acc @ (start, e) # ps, None)"
      using True e(1) ps(1) by (subst split_pages_loop.simps) simp
    moreover have "pages_chain start ((start, e) # ps) (int (length content))"
      using se ps(2) by simp
    moreover have "\<forall>p \<in> set ((start, e) # ps). snd p = int (length content)
            \<or> content ! nat (snd p - 1) \<in> page_break_chars"
      using ps(3) e(4) by simp
    moreover have "\<forall>p \<in> set ((start, e) # ps).
            min (fst p + vsize) (int (length content)) \<le> snd p"
      using ps(4) e(2) by simp
    ultimately show ?thesis by blast
  qed
qed

lemma split_pages_nonempty_body:
  assumes "viewport_size b = Some vsize" and "1 \<le> vsize" and "priv_page_content b \<noteq> []"
  shows "\<exists>pages. split_pages b = Returns () (b\<lparr>viewport_pages := pages\<rparr>)
        \<and> pages_chain 0 pages (int (length (priv_page_content b)))
        \<and> (\<forall>p \<in> set pages. snd p = int (length (priv_page_content b))
                \<or> priv_page_content b ! nat (snd p - 1) \<in> page_break_chars)
        \<and> (\<forall>p \<in> set pages.
              min (fst p + vsize) (int (length (priv_page_content b))) \<le> snd p)"
proof -
  from split_pages_loop_result[OF assms(2), of 0 "priv_page_content b" "[]"]
  obtain ps where ps:
    "split_pages_loop vsize (priv_page_content b) 0 [] = Some (ps, None)"
    "pages_chain 0 ps (int (length (priv_page_content b)))"
    "\<forall>p \<in> set ps. snd p = int (length (priv_page_content b))
          \<or> priv_page_content b ! nat (snd p - 1) \<in> page_break_chars"
    "\<forall>p \<in> set ps. min (fst p + vsize) (int (length (priv_page_content b))) \<le> snd p"
    by auto
  from assms(1,3) ps(1) have "split_pages b = Returns () (b\<lparr>viewport_pages := ps\<rparr>)"
    by (simp add: split_pages_def)
  with ps(2,3,4) show ?thesis by blast
qed

lemma split_pages_empty_body:
  "priv_page_content b = [] \<Longrightarrow> split_pages b = Returns () (b\<lparr>viewport_pages := [(0, 0)]\<rparr>)"
  by (simp add: split_pages_def)

lemma pages_chain_le: "pages_chain a ps b \<Longrightarrow> a \<le> b"
  by (induction ps arbitrary: a) force+

lemma pages_chain_nonempty: "pages_chain a ps b \<Longrightarrow> a < b \<Longrightarrow> ps \<noteq> []"
  by (cases ps) auto

lemma pages_chain_hd: "pages_chain a ps b \<Longrightarrow> ps \<noteq> [] \<Longrightarrow> fst (hd ps) = a"
  by (cases ps) auto

lemma pages_chain_last: "pages_chain a ps b \<Longrightarrow> ps \<noteq> [] \<Longrightarrow> snd (last ps) = b"
  by (induction ps arbitrary: a) (auto split: if_splits)

lemma pages_chain_fst_lt_snd: "pages_chain a ps b \<Longrightarrow> p \<in> set ps \<Longrightarrow> fst p < snd p"
  by (induction ps arbitrary: a) auto

lemma pages_chain_adjacent:
  "pages_chain a ps b \<Longrightarrow> Suc i < length ps \<Longrightarrow> snd (ps ! i) = fst (ps ! Suc i)"
proof (induction ps arbitrary: a i)
  case Nil
  then show ?case by simp
next
  case (Cons p ps)
  show ?case
  proof (cases i)
    case 0
    with Cons.prems show ?thesis by (cases ps) auto
  next
    case (Suc k)
    with Cons.prems Cons.IH[of "snd p" k] show ?thesis by simp
  qed
qed

lemma pages_chain_bounds:
  "pages_chain a ps b \<Longrightarrow> p \<in> set ps \<Longrightarrow> a \<le> fst p \<and> snd p \<le> b"
proof (induction ps arbitrary: a)
  case Nil
  then show ?case by simp
next
  case (Cons q ps)
  from Cons.prems have ch: "pages_chain (snd q) ps b" and q: "fst q = a" "fst q < snd q"
    by auto
  show ?case
  proof (cases "p = q")
    case True
    with q pages_chain_le[OF ch] show ?thesis by simp
  next
    case False
    with Cons.prems have "p \<in> set ps" by simp
    from Cons.IH[OF ch this] q show ?thesis by simp
  qed
qed

lemma pages_chain_ordered:
  "pages_chain a ps b \<Longrightarrow> i < j \<Longrightarrow> j < length ps \<Longrightarrow> snd (ps ! i) \<le> fst (ps ! j)"
proof (induction ps arbitrary: a i j)
  case Nil
  then show ?case by simp
next
  case (Cons p ps)
  from Cons.prems have ch: "pages_chain (snd p) ps b" by simp
  obtain k where j: "j = Suc k" using Cons.prems(2) by (cases j) auto
  show ?case
  proof (cases i)
    case 0
    from Cons.prems j have "ps ! k \<in> set ps" by simp
    from pages_chain_bounds[OF ch this] 0 j show ?thesis by simp
  next
    case (Suc i')
    with Cons.prems j Cons.IH[OF ch, of i' k] show ?thesis by simp
  qed
qed

lemma pages_chain_union:
  "pages_chain a ps b \<Longrightarrow> (\<Union>p \<in> set ps. {fst p ..< snd p}) = {a ..< b}"
proof (induction ps arbitrary: a)
  case Nil
  then show ?case by simp
next
  case (Cons p ps)
  from Cons.prems have ch: "pages_chain (snd p) ps b" and p: "fst p = a" "fst p < snd p"
    by auto
  from pages_chain_le[OF ch] p Cons.IH[OF ch] show ?case by auto
qed

lemma pages_chain_length: "pages_chain a ps b \<Longrightarrow> int (length ps) \<le> b - a"
  by (induction ps arbitrary: a) force+

lemma words_browser_loop:
  "split_pages_loop 6 (py ''aaaa bbbb cccc'') 0 [] = Some ([(0, 10), (10, 14)], None)"
  by (simp add: split_pages_loop.simps py_def adjust_end_idx.simps py_getitem_def
        page_break_chars_def)

lemma words_browser_pages:
  "split_pages words_browser = Returns () (words_browser\<lparr>viewport_pages := [(0, 10), (10, 14)]\<rparr>)"
  by (simp add: split_pages_def words_browser_def fresh_browser_def words_browser_loop)
     (simp add: py_def)

lemma paging_step_in_range:
  assumes "0 \<le> viewport_current_page c" "viewport_current_page c < int (length (viewport_pages c))"
  shows "0 \<le> viewport_current_page (paging_step x c)
       \<and> viewport_current_page (paging_step x c) < int (length (viewport_pages (paging_step x c)))
       \<and> viewport_pages (paging_step x c) = viewport_pages c"
  using assms by (cases x) (auto simp: page_up_def page_down_def)

lemma paging_calls_in_range:
  "0 \<le> viewport_current_page c \<Longrightarrow> viewport_current_page c < int (length (viewport_pages c)) \<Longrightarrow>
   0 \<le> viewport_current_page (paging_calls calls c)
       \<and> viewport_current_page (paging_calls calls c) < int (length (viewport_pages (paging_calls calls c)))
       \<and> viewport_pages (paging_calls calls c) = viewport_pages c"
proof (induction calls arbitrary: c)
  case Nil
  then show ?case by simp
next
  case (Cons x calls)
  from paging_step_in_range[OF Cons.prems, of x]
  have s: "0 \<le> viewport_current_page (paging_step x c)"
    "viewport_current_page (paging_step x c) < int (length (viewport_pages (paging_step x c)))"
    "viewport_pages (paging_step x c) = viewport_pages c"
    by auto
  from Cons.IH[OF s(1,2)] show ?case unfolding paging_calls.simps s(3) .
qed

text \<open>
  Claim C2, as the code has it. With a viewport size of at least one, \<open>_split_pages\<close>
  returns, for every document body, a non-empty list of pages in which the first page starts at 0, each
  page starts where the one before it ends, the last page ends at the length of the
  body, any two pages are disjoint as half-open ranges and the union of all pages is
  exactly \<open>[0, length)\<close>; for the empty body the list is the single page \<open>(0, 0)\<close>. And
  from any state whose current page is within \<open>[0, len(viewport_pages) - 1]\<close>, it is
  still within these bounds after any sequence of \<open>page_up\<close> and \<open>page_down\<close> calls.
\<close>

theorem split_pages_cover:
  assumes "viewport_size b = Some vsize" and "1 \<le> vsize"
  shows "\<exists>pages. split_pages b = Returns () (b\<lparr>viewport_pages := pages\<rparr>)
     \<and> pages \<noteq> []
     \<and> fst (hd pages) = 0
     \<and> snd (last pages) = int (length (priv_page_content b))
     \<and> (\<forall>i. Suc i < length pages \<longrightarrow> snd (pages ! i) = fst (pages ! Suc i))
     \<and> (\<forall>i j. i < j \<and> j < length pages \<longrightarrow>
           {fst (pages ! i) ..< snd (pages ! i)} \<inter> {fst (pages ! j) ..< snd (pages ! j)} = {})
     \<and> (\<Union>p \<in> set pages. {fst p ..< snd p}) = {0 ..< int (length (priv_page_content b))}
     \<and> (priv_page_content b = [] \<longrightarrow> pages = [(0, 0)])
     \<and> (\<forall>c calls. 0 \<le> viewport_current_page c
             \<and> viewport_current_page c < int (length (viewport_pages c)) \<longrightarrow>
           0 \<le> viewport_current_page (paging_calls calls c)
           \<and> viewport_current_page (paging_calls calls c)
               \<le> int (length (viewport_pages (paging_calls calls c))) - 1)"
proof -
  have paging: "\<forall>c calls. 0 \<le> viewport_current_page c
             \<and> viewport_current_page c < int (length (viewport_pages c)) \<longrightarrow>
           0 \<le> viewport_current_page (paging_calls calls c)
           \<and> viewport_current_page (paging_calls calls c)
               \<le> int (length (viewport_pages (paging_calls calls c))) - 1"
    using paging_calls_in_range by fastforce
  show ?thesis
  proof (cases "priv_page_content b = []")
    case True
    from split_pages_empty_body[OF True] True paging show ?thesis by simp
  next
    case False
    let ?n = "int (length (priv_page_content b))"
    from split_pages_nonempty_body[OF assms False] obtain pages where
      r: "split_pages b = Returns () (b\<lparr>viewport_pages := pages\<rparr>)"
      and ch: "pages_chain 0 pages ?n" by blast
    from False have "0 < ?n" by simp
    from pages_chain_nonempty[OF ch this] have ne: "pages \<noteq> []" .
    have disj: "\<forall>i j. i < j \<and> j < length pages \<longrightarrow>
           {fst (pages ! i) ..< snd (pages ! i)} \<inter> {fst (pages ! j) ..< snd (pages ! j)} = {}"
    proof (intro allI impI)
      fix i j assume "i < j \<and> j < length pages"
      then have "snd (pages ! i) \<le> fst (pages ! j)" using pages_chain_ordered[OF ch] by blast
      then show "{fst (pages ! i) ..< snd (pages ! i)} \<inter> {fst (pages ! j) ..< snd (pages ! j)} = {}"
        by auto
    qed
    have adj: "\<forall>i. Suc i < length pages \<longrightarrow> snd (pages ! i) = fst (pages ! Suc i)"
      using pages_chain_adjacent[OF ch] by blast
    from r ne pages_chain_hd[OF ch ne] pages_chain_last[OF ch ne] adj disj
      pages_chain_union[OF ch] False paging
    show ?thesis by blast
  qed
qed

theorem split_pages_cover_witness:
  "viewport_size words_browser = Some 6 \<and> (1::int) \<le> 6
   \<and> (\<exists>pages. split_pages words_browser = Returns () (words_browser\<lparr>viewport_pages := pages\<rparr>)
        \<and> pages \<noteq> []
        \<and> (\<Union>p \<in> set pages. {fst p ..< snd p}) = {0 ..< 14})"
proof -
  have h1: "viewport_size words_browser = Some 6"
    by (simp add: words_browser_def fresh_browser_def)
  have h2: "(1::int) \<le> 6" by simp
  have len: "int (length (priv_page_content words_browser)) = 14"
    by (simp add: words_browser_def fresh_browser_def py_def)
  from split_pages_cover[OF h1 h2] len h1 h2 show ?thesis by auto
qed

lemma zero_size_stuck:
  assumes "split_pages_loop vsize content start acc = Some y"
  shows "\<not> (vsize = 0 \<and> content = py ''ab cd'' \<and> start = 3)"
proof (rule split_pages_loop.raw_induct
    [where P = "\<lambda>vsize content start acc y.
        \<not> (vsize = 0 \<and> content = py ''ab cd'' \<and> start = 3)", OF _ assms])
  fix loop :: "int \<Rightarrow> pystr \<Rightarrow> int \<Rightarrow> (int \<times> int) list
                 \<Rightarrow> ((int \<times> int) list \<times> exn option) option"
  fix vsize content start_idx pages y
  assume IH: "\<And>vsize content start_idx pages y.
      loop vsize content start_idx pages = Some y \<Longrightarrow>
      \<not> (vsize = 0 \<and> content = py ''ab cd'' \<and> start_idx = 3)"
  assume body: "(if start_idx < int (length content) then
        (case adjust_end_idx content (min (start_idx + vsize) (int (length content))) of
           Inl e \<Rightarrow> Some (pages, Some e)
         | Inr end_idx \<Rightarrow> loop vsize content end_idx (pages @ [(start_idx, end_idx)]))
      else Some (pages, None)) = Some y"
  show "\<not> (vsize = 0 \<and> content = py ''ab cd'' \<and> start_idx = 3)"
  proof
    assume s: "vsize = 0 \<and> content = py ''ab cd'' \<and> start_idx = 3"
    have "adjust_end_idx (py ''ab cd'') 3 = Inr 3"
      by (simp add: adjust_end_idx.simps py_def py_getitem_def page_break_chars_def)
    with s body have "loop 0 (py ''ab cd'') 3 (pages @ [(3, 3)]) = Some y"
      by (simp add: py_def)
    from IH[OF this] show False by simp
  qed
qed

lemma zero_size_diverges: "split_pages_loop 0 (py ''ab cd'') 0 [] = None"
proof -
  have "adjust_end_idx (py ''ab cd'') 0 = Inr 3"
    by (simp add: adjust_end_idx.simps py_def py_getitem_def page_break_chars_def)
  then have "split_pages_loop 0 (py ''ab cd'') 0 []
           = split_pages_loop 0 (py ''ab cd'') 3 [(0, 3)]"
    by (subst split_pages_loop.simps) (simp add: py_def)
  moreover have "split_pages_loop 0 (py ''ab cd'') 3 [(0, 3)] = None"
    using zero_size_stuck[of 0 "py ''ab cd''" 3 "[(0, 3)]"]
    by (cases "split_pages_loop 0 (py ''ab cd'') 3 [(0, 3)]") auto
  ultimately show ?thesis by simp
qed

text \<open>
  Claim C2, as the specification states it, fails for viewport sizes below one and for
  the size \<open>None\<close>, which the constructor accepts: for the body \<open>ab cd\<close> the size 0
  makes \<open>_split_pages\<close> append the page \<open>(3, 3)\<close> for ever, the size \<open>None\<close> makes it
  raise \<open>TypeError\<close> and the size \<open>-5\<close> makes it raise \<open>IndexError\<close>; no list of pages
  that covers the body is produced.
\<close>

theorem split_pages_cover_counterexample:
  "split_pages (fresh_browser (Some 0) (py ''ab cd'')) = Diverges
   \<and> split_pages (fresh_browser None (py ''ab cd''))
       = Raises TypeError (fresh_browser None (py ''ab cd''))
   \<and> split_pages (fresh_browser (Some (- 5)) (py ''ab cd''))
       = Raises IndexError (fresh_browser (Some (- 5)) (py ''ab cd''))"
proof -
  have a: "split_pages (fresh_browser (Some 0) (py ''ab cd'')) = Diverges"
    using zero_size_diverges by (simp add: split_pages_def fresh_browser_def py_def)
  have b: "split_pages (fresh_browser None (py ''ab cd''))
       = Raises TypeError (fresh_browser None (py ''ab cd''))"
    by (simp add: split_pages_def fresh_browser_def py_def)
  have c: "split_pages (fresh_browser (Some (- 5)) (py ''ab cd''))
       = Raises IndexError (fresh_browser (Some (- 5)) (py ''ab cd''))"
    by (simp add: split_pages_def fresh_browser_def split_pages_loop.simps py_def
          adjust_end_idx.simps py_getitem_def)
  from a b c show ?thesis by blast
qed

lemma adjust_end_idx_safe:
  "e0 \<le> int (length content) \<Longrightarrow> adjust_end_idx content e0 = Inr e \<Longrightarrow>
   page_end_safe content (s, e)"
proof (induction content e0 rule: adjust_end_idx.induct)
  case (1 content end_idx)
  show ?case
  proof (cases "end_idx < int (length content)")
    case False
    with "1.prems" have "adjust_end_idx content end_idx = Inr end_idx"
      by (subst adjust_end_idx.simps) simp
    with "1.prems" False show ?thesis by (simp add: page_end_safe_def)
  next
    case True
    show ?thesis
    proof (cases "py_getitem content (end_idx - 1)")
      case (Inl x)
      with True "1.prems"(2) show ?thesis by (subst (asm) adjust_end_idx.simps) simp
    next
      case (Inr c)
      show ?thesis
      proof (cases "c \<in> page_break_chars")
        case True
        with \<open>end_idx < int (length content)\<close> Inr "1.prems"(2) have "e = end_idx"
          by (subst (asm) adjust_end_idx.simps) simp
        with Inr True show ?thesis by (simp add: page_end_safe_def)
      next
        case False
        with \<open>end_idx < int (length content)\<close> Inr "1.prems"(2)
        have "adjust_end_idx content (end_idx + 1) = Inr e"
          by (subst (asm) adjust_end_idx.simps) simp
        with "1.IH"[OF \<open>end_idx < int (length content)\<close> Inr False] \<open>end_idx < int (length content)\<close>
        show ?thesis by simp
      qed
    qed
  qed
qed

lemma split_pages_loop_safe:
  assumes "split_pages_loop vsize content start acc = Some y"
  shows "(\<forall>p \<in> set acc. page_end_safe content p) \<longrightarrow>
         (\<forall>p \<in> set (fst y). page_end_safe content p)"
proof (rule split_pages_loop.raw_induct
    [where P = "\<lambda>vsize content start acc y.
        (\<forall>p \<in> set acc. page_end_safe content p) \<longrightarrow>
        (\<forall>p \<in> set (fst y). page_end_safe content p)", OF _ assms])
  fix loop :: "int \<Rightarrow> pystr \<Rightarrow> int \<Rightarrow> (int \<times> int) list
                 \<Rightarrow> ((int \<times> int) list \<times> exn option) option"
  fix vsize content start_idx pages y
  assume IH: "\<And>vsize content start_idx pages y.
      loop vsize content start_idx pages = Some y \<Longrightarrow>
      (\<forall>p \<in> set pages. page_end_safe content p) \<longrightarrow>
      (\<forall>p \<in> set (fst y). page_end_safe content p)"
  assume body: "(if start_idx < int (length content) then
        (case adjust_end_idx content (min (start_idx + vsize) (int (length content))) of
           Inl e \<Rightarrow> Some (pages, Some e)
         | Inr end_idx \<Rightarrow> loop vsize content end_idx (pages @ [(start_idx, end_idx)]))
      else Some (pages, None)) = Some y"
  show "(\<forall>p \<in> set pages. page_end_safe content p) \<longrightarrow>
        (\<forall>p \<in> set (fst y). page_end_safe content p)"
  proof (cases "start_idx < int (length content)")
    case False
    with body show ?thesis by auto
  next
    case True
    show ?thesis
    proof (cases "adjust_end_idx content (min (start_idx + vsize) (int (length content)))")
      case (Inl e)
      with True body show ?thesis by auto
    next
      case (Inr end_idx)
      with True body
      have l: "loop vsize content end_idx (pages @ [(start_idx, end_idx)]) = Some y"
        by simp
      have "page_end_safe content (start_idx, end_idx)"
        by (rule adjust_end_idx_safe[OF _ Inr]) simp
      with IH[OF l] show ?thesis by simp
    qed
  qed
qed

lemma split_pages_safe:
  assumes "state_after (split_pages b) = Some b'"
  shows "\<forall>p \<in> set (viewport_pages b'). page_end_safe (priv_page_content b) p"
proof (cases "priv_page_content b = []")
  case True
  with assms show ?thesis by (auto simp: split_pages_def page_end_safe_def)
next
  case False
  show ?thesis
  proof (cases "viewport_size b")
    case None
    with False assms show ?thesis by (auto simp: split_pages_def)
  next
    case (Some vsize)
    show ?thesis
    proof (cases "split_pages_loop vsize (priv_page_content b) 0 []")
      case None
      with False Some assms show ?thesis by (simp add: split_pages_def)
    next
      case (Some y)
      from split_pages_loop_safe[OF Some]
      have "\<forall>p \<in> set (fst y). page_end_safe (priv_page_content b) p" by simp
      with False \<open>viewport_size b = Some vsize\<close> Some assms show ?thesis
        by (cases y; cases "snd y") (auto simp: split_pages_def)
    qed
  qed
qed

text \<open>
  Claim C3. Whenever \<open>_split_pages\<close> comes back, by returning or by raising and with
  whatever viewport size, every page \<open>(start, end)\<close> that it has put into
  \<open>viewport_pages\<close> either ends at the length of the body or has a white space
  character (space, tab, carriage return or newline) at \<open>body[end-1]\<close>, read as Python
  reads the index; so the characters on the two sides of a page boundary are never both
  other than white space, that is, no boundary lies inside a run of such characters. With
  a viewport size of at least one the call returns.
\<close>

theorem split_pages_word_safe:
  assumes "state_after (split_pages b) = Some b'"
  shows "(\<forall>p \<in> set (viewport_pages b').
            snd p = int (length (priv_page_content b))
            \<or> (\<exists>c. py_getitem (priv_page_content b) (snd p - 1) = Inr c
                   \<and> c \<in> {32, 9, 13, 10}))
     \<and> (\<forall>p \<in> set (viewport_pages b'). \<forall>c d.
            snd p \<noteq> int (length (priv_page_content b))
            \<and> py_getitem (priv_page_content b) (snd p - 1) = Inr c
            \<and> py_getitem (priv_page_content b) (snd p) = Inr d \<longrightarrow>
            \<not> (c \<notin> {32, 9, 13, 10} \<and> d \<notin> {32, 9, 13, 10}))
     \<and> (\<forall>vsize. viewport_size b = Some vsize \<and> 1 \<le> vsize \<longrightarrow>
            split_pages b = Returns () b')"
proof -
  let ?body = "priv_page_content b"
  have a: "\<forall>p \<in> set (viewport_pages b').
            snd p = int (length ?body)
            \<or> (\<exists>c. py_getitem ?body (snd p - 1) = Inr c \<and> c \<in> {32, 9, 13, 10})"
  proof
    fix p assume "p \<in> set (viewport_pages b')"
    with split_pages_safe[OF assms] have "page_end_safe ?body p" by blast
    then show "snd p = int (length ?body)
            \<or> (\<exists>c. py_getitem ?body (snd p - 1) = Inr c \<and> c \<in> {32, 9, 13, 10})"
      by (auto simp: page_end_safe_def page_break_chars_def split: sum.splits)
  qed
  then have c: "\<forall>p \<in> set (viewport_pages b'). \<forall>c d.
            snd p \<noteq> int (length ?body)
            \<and> py_getitem ?body (snd p - 1) = Inr c
            \<and> py_getitem ?body (snd p) = Inr d \<longrightarrow>
            \<not> (c \<notin> {32, 9, 13, 10} \<and> d \<notin> {32, 9, 13, 10})"
    by fastforce
  have r: "\<forall>vsize. viewport_size b = Some vsize \<and> 1 \<le> vsize \<longrightarrow>
            split_pages b = Returns () b'"
  proof (intro allI impI)
    fix vsize assume v: "viewport_size b = Some vsize \<and> 1 \<le> vsize"
    show "split_pages b = Returns () b'"
    proof (cases "?body = []")
      case True
      from split_pages_empty_body[OF True] assms show ?thesis by simp
    next
      case False
      from v split_pages_nonempty_body[OF _ _ False, of vsize] assms show ?thesis by auto
    qed
  qed
  from a c r show ?thesis by blast
qed

lemma zero_size_pages:
  "split_pages (fresh_browser (Some 0) (py ''ab''))
     = Returns () (fresh_browser (Some 0) (py ''ab'')\<lparr>viewport_pages := [(0, 2)]\<rparr>)"
  by (simp add: split_pages_def fresh_browser_def split_pages_loop.simps py_def
        adjust_end_idx.simps py_getitem_def page_break_chars_def)

theorem split_pages_word_safe_witness:
  "state_after (split_pages words_browser)
     = Some (words_browser\<lparr>viewport_pages := [(0, 10), (10, 14)]\<rparr>)
   \<and> (\<exists>c. py_getitem (priv_page_content words_browser) 9 = Inr c \<and> c \<in> {32, 9, 13, 10})
   \<and> state_after (split_pages (fresh_browser (Some 0) (py ''ab'')))
       = Some (fresh_browser (Some 0) (py ''ab'')\<lparr>viewport_pages := [(0, 2)]\<rparr>)
   \<and> viewport_size words_browser = Some 6 \<and> (1::int) \<le> 6
   \<and> split_pages words_browser
       = Returns () (words_browser\<lparr>viewport_pages := [(0, 10), (10, 14)]\<rparr>)"
proof -
  have h: "state_after (split_pages words_browser)
     = Some (words_browser\<lparr>viewport_pages := [(0, 10), (10, 14)]\<rparr>)"
    by (simp add: words_browser_pages)
  have z: "state_after (split_pages (fresh_browser (Some 0) (py ''ab'')))
       = Some (fresh_browser (Some 0) (py ''ab'')\<lparr>viewport_pages := [(0, 2)]\<rparr>)"
    by (simp add: zero_size_pages)
  have len: "int (length (priv_page_content words_browser)) = 14"
    by (simp add: words_browser_def fresh_browser_def py_def)
  have v: "viewport_size words_browser = Some 6" "(1::int) \<le> 6"
    by (simp_all add: words_browser_def fresh_browser_def)
  from split_pages_word_safe[OF h]
  have "\<forall>p \<in> set [(0, 10), (10, 14)].
            snd p = int (length (priv_page_content words_browser))
            \<or> (\<exists>c. py_getitem (priv_page_content words_browser) (snd p - 1) = Inr c
                   \<and> c \<in> {32, 9, 13, 10})"
    and r: "split_pages words_browser
       = Returns () (words_browser\<lparr>viewport_pages := [(0, 10), (10, 14)]\<rparr>)"
    using v by auto
  then have "\<exists>c. py_getitem (priv_page_content words_browser) 9 = Inr c \<and> c \<in> {32, 9, 13, 10}"
    unfolding len by simp
  with h z v r show ?thesis by blast
qed

text \<open>
  Claim C4, as the code has it. For the body \<open>"aaaa bbbb cccc"\<close> (length 14) and the
  viewport size 6, \<open>_split_pages\<close> produces the pages \<open>[(0, 10), (10, 14)]\<close>: the end of
  the first page is proposed at 6, inside \<open>bbbb\<close>, and moves forward to 10, just after
  the space that follows \<open>bbbb\<close>; the last page takes the rest.
\<close>

theorem split_pages_scenario:
  "split_pages (fresh_browser (Some 6) (py ''aaaa bbbb cccc''))
     = Returns () (fresh_browser (Some 6) (py ''aaaa bbbb cccc'')
                     \<lparr>viewport_pages := [(0, 10), (10, 14)]\<rparr>)"
  using words_browser_pages by (simp add: words_browser_def)

text \<open>
  Claim C4, as the specification states it, fails: the pages are not
  \<open>[(0, 5), (5, 10), (10, 14)]\<close>.
\<close>

theorem split_pages_scenario_counterexample:
  "split_pages (fresh_browser (Some 6) (py ''aaaa bbbb cccc''))
     \<noteq> Returns () (fresh_browser (Some 6) (py ''aaaa bbbb cccc'')
                     \<lparr>viewport_pages := [(0, 5), (5, 10), (10, 14)]\<rparr>)"
proof
  assume "split_pages (fresh_browser (Some 6) (py ''aaaa bbbb cccc''))
     = Returns () (fresh_browser (Some 6) (py ''aaaa bbbb cccc'')
                     \<lparr>viewport_pages := [(0, 5), (5, 10), (10, 14)]\<rparr>)"
  with words_browser_pages
  have "viewport_pages (words_browser\<lparr>viewport_pages := [(0, 10), (10, 14)]\<rparr>)
      = viewport_pages (words_browser\<lparr>viewport_pages := [(0, 5), (5, 10), (10, 14)]\<rparr>)"
    by (simp add: words_browser_def)
  then show False by simp
qed

text \<open>
  Claim C9. With a viewport size of at least one, \<open>_split_pages\<close> terminates for every
  body: it returns a list of pages. For a non-empty body every page \<open>(start, end)\<close> has
  \<open>end > start\<close>, the starts strictly increase from page to page, and there are at most
  as many pages as the body has characters; for the empty body there is exactly one page.
\<close>

theorem split_pages_terminates:
  assumes "viewport_size b = Some vsize" and "1 \<le> vsize"
  shows "\<exists>pages. split_pages b = Returns () (b\<lparr>viewport_pages := pages\<rparr>)
     \<and> (priv_page_content b \<noteq> [] \<longrightarrow>
          (\<forall>p \<in> set pages. fst p < snd p)
          \<and> (\<forall>i. Suc i < length pages \<longrightarrow> fst (pages ! i) < fst (pages ! Suc i))
          \<and> length pages \<le> length (priv_page_content b))
     \<and> (priv_page_content b = [] \<longrightarrow> length pages = 1)"
proof (cases "priv_page_content b = []")
  case True
  from split_pages_empty_body[OF True] True show ?thesis
    by (intro exI[of _ "[(0, 0)]"]) simp
next
  case False
  from split_pages_nonempty_body[OF assms False] obtain pages where
    r: "split_pages b = Returns () (b\<lparr>viewport_pages := pages\<rparr>)"
    and ch: "pages_chain 0 pages (int (length (priv_page_content b)))"
    by blast
  have lt: "\<forall>p \<in> set pages. fst p < snd p"
    using pages_chain_fst_lt_snd[OF ch] by blast
  have inc: "\<forall>i. Suc i < length pages \<longrightarrow> fst (pages ! i) < fst (pages ! Suc i)"
  proof (intro allI impI)
    fix i assume i: "Suc i < length pages"
    then have "pages ! i \<in> set pages" by simp
    with lt have "fst (pages ! i) < snd (pages ! i)" by blast
    with pages_chain_adjacent[OF ch i] show "fst (pages ! i) < fst (pages ! Suc i)" by simp
  qed
  from pages_chain_length[OF ch] have "length pages \<le> length (priv_page_content b)" by simp
  with r lt inc False show ?thesis by blast
qed

theorem split_pages_terminates_witness:
  "viewport_size words_browser = Some 6 \<and> (1::int) \<le> 6
   \<and> (\<exists>pages. split_pages words_browser = Returns () (words_browser\<lparr>viewport_pages := pages\<rparr>)
        \<and> (\<forall>p \<in> set pages. fst p < snd p) \<and> length pages \<le> 14)"
proof -
  have h1: "viewport_size words_browser = Some 6"
    by (simp add: words_browser_def fresh_browser_def)
  have h2: "(1::int) \<le> 6" by simp
  have h3: "priv_page_content words_browser \<noteq> []"
    by (simp add: words_browser_def fresh_browser_def py_def)
  have len: "length (priv_page_content words_browser) = 14"
    by (simp add: words_browser_def fresh_browser_def py_def)
  from split_pages_terminates[OF h1 h2] len h1 h2 h3 show ?thesis by auto
qed

section \<open>Properties of searching\<close>

subsection \<open>A session with the example document\<close>

lemma init_doc: "init doc_env (Some 4) = Returns () started_browser"
  by (simp add: init_def set_path_def resolve_path_def path_def priv_open_path_def
        open_path_try_def fetch_local_dir_def set_page_content_def doc_env_def py_def
        started_browser_def Let_def)

lemma open_doc: "open_path doc_env (py ''/doc.txt'') started_browser = Returns (py ''foo '') (doc_browser 0 None None)"
  by code_simp

lemma find_doc: "find_on_page ascii_db (py ''foo'') (doc_browser 0 None None) = Returns (Some (py ''foo '')) (doc_browser 0 (Some (py ''foo'')) (Some 0))"
  by code_simp

lemma reopen_doc: "open_path doc_env (py ''/doc.txt'') (doc_browser 0 (Some (py ''foo'')) (Some 0))
   = Returns (py ''foo '') (doc_browser 0 (Some (py ''foo'')) (Some 0)\<lparr>history := [(py ''/'', 0), (py ''/doc.txt'', 0), (py ''/doc.txt'', 0)]\<rparr>)"
  by code_simp

lemma next_doc: "find_next ascii_db (doc_browser 0 (Some (py ''foo'')) (Some 0)\<lparr>history := [(py ''/'', 0), (py ''/doc.txt'', 0), (py ''/doc.txt'', 0)]\<rparr>)
   = Returns (Some (py ''foo'')) (doc_browser 2 (Some (py ''foo'')) (Some 2)\<lparr>history := [(py ''/'', 0), (py ''/doc.txt'', 0), (py ''/doc.txt'', 0)]\<rparr>)"
  by code_simp

subsection \<open>What a search leaves alone\<close>

lemma search_frame_simps:
  "search_frame b b"
  "search_frame b (b\<lparr>priv_find_on_page_last_result := r\<rparr>)"
  "search_frame b (b\<lparr>priv_find_on_page_query := q\<rparr>)"
  "search_frame b (b\<lparr>priv_find_on_page_query := q, priv_find_on_page_last_result := r\<rparr>)"
  "search_frame b (b\<lparr>viewport_current_page := m, priv_find_on_page_last_result := r\<rparr>)"
  "search_frame b (b\<lparr>priv_find_on_page_query := q, viewport_current_page := m, priv_find_on_page_last_result := r\<rparr>)"
  by (cases b; simp add: search_frame_def)+

lemma find_next_frame: "\<exists>b'. state_after (find_next U b) = Some b' \<and> search_frame b b'"
  by (simp add: find_next_def Let_def search_frame_simps split: option.splits sum.splits)

lemma find_on_page_frame: "\<exists>b'. state_after (find_on_page U q b) = Some b' \<and> search_frame b b'"
proof (cases "Some q = priv_find_on_page_query b
         \<and> Some (viewport_current_page b) = priv_find_on_page_last_result b")
  case True
  then have "find_on_page U q b = find_next U b" by (simp add: find_on_page_def)
  with find_next_frame show ?thesis by simp
next
  case False
  then have "\<not> (Some q = priv_find_on_page_query b
         \<and> Some (viewport_current_page b) = priv_find_on_page_last_result b)" .
  then show ?thesis
    unfolding find_on_page_def
    by (simp only: if_False) (simp add: Let_def search_frame_simps split: option.splits sum.splits)
qed

lemma search_frame_fields:
  assumes "search_frame b b'"
  shows "priv_page_content b' = priv_page_content b" "viewport_pages b' = viewport_pages b"
    "page_title b' = page_title b" "history b' = history b" "viewport_size b' = viewport_size b"
proof -
  from assms have e: "b' = b\<lparr>viewport_current_page := viewport_current_page b',
                priv_find_on_page_query := priv_find_on_page_query b',
                priv_find_on_page_last_result := priv_find_on_page_last_result b'\<rparr>"
    by (simp add: search_frame_def)
  show "priv_page_content b' = priv_page_content b" by (subst e) simp
  show "viewport_pages b' = viewport_pages b" by (subst e) simp
  show "page_title b' = page_title b" by (subst e) simp
  show "history b' = history b" by (subst e) simp
  show "viewport_size b' = viewport_size b" by (subst e) simp
qed

text \<open>
  Claim C10. From every state and for every query, \<open>find_on_page\<close> and \<open>find_next\<close>
  leave the object in a state (whether they return or raise) that differs from the
  state before at most in \<open>viewport_current_page\<close>, \<open>_find_on_page_query\<close> and
  \<open>_find_on_page_last_result\<close>; in particular the page content, the page ranges, the page
  title and the history are unchanged.
\<close>

theorem find_frame:
  "(\<exists>b'. state_after (find_on_page U q b) = Some b'
       \<and> b' = b\<lparr>viewport_current_page := viewport_current_page b',
                priv_find_on_page_query := priv_find_on_page_query b',
                priv_find_on_page_last_result := priv_find_on_page_last_result b'\<rparr>
       \<and> priv_page_content b' = priv_page_content b
       \<and> viewport_pages b' = viewport_pages b
       \<and> page_title b' = page_title b
       \<and> history b' = history b)
   \<and> (\<exists>b'. state_after (find_next U b) = Some b'
       \<and> b' = b\<lparr>viewport_current_page := viewport_current_page b',
                priv_find_on_page_query := priv_find_on_page_query b',
                priv_find_on_page_last_result := priv_find_on_page_last_result b'\<rparr>
       \<and> priv_page_content b' = priv_page_content b
       \<and> viewport_pages b' = viewport_pages b
       \<and> page_title b' = page_title b
       \<and> history b' = history b)"
proof -
  from find_on_page_frame obtain b1 where
    b1: "state_after (find_on_page U q b) = Some b1" "search_frame b b1" by blast
  from find_next_frame obtain b2 where
    b2: "state_after (find_next U b) = Some b2" "search_frame b b2" by blast
  from b1 search_frame_fields[OF b1(2)] b2 search_frame_fields[OF b2(2)]
  show ?thesis unfolding search_frame_def by blast
qed

subsection \<open>Repeating a search\<close>

text \<open>
  Claim C5. If \<open>find_on_page(q)\<close> is called when \<open>q\<close> is the query submitted before and
  the current page is the remembered page of the last match, the call is \<open>find_next()\<close>:
  it has the same result and leaves the same state.
\<close>

theorem find_on_page_repeat:
  assumes "priv_find_on_page_query b = Some q"
    and "priv_find_on_page_last_result b = Some (viewport_current_page b)"
  shows "find_on_page U q b = find_next U b"
  using assms by (simp add: find_on_page_def)

theorem find_on_page_repeat_witness:
  "priv_find_on_page_query (doc_browser 0 (Some (py ''foo'')) (Some 0)) = Some (py ''foo'')
   \<and> priv_find_on_page_last_result (doc_browser 0 (Some (py ''foo'')) (Some 0))
       = Some (viewport_current_page (doc_browser 0 (Some (py ''foo'')) (Some 0)))
   \<and> find_on_page ascii_db (py ''foo'') (doc_browser 0 (Some (py ''foo'')) (Some 0))
       = find_next ascii_db (doc_browser 0 (Some (py ''foo'')) (Some 0))"
proof -
  have h1: "priv_find_on_page_query (doc_browser 0 (Some (py ''foo'')) (Some 0)) = Some (py ''foo'')"
    by (simp add: doc_browser_def)
  have h2: "priv_find_on_page_last_result (doc_browser 0 (Some (py ''foo'')) (Some 0))
       = Some (viewport_current_page (doc_browser 0 (Some (py ''foo'')) (Some 0)))"
    by (simp add: doc_browser_def)
  from find_on_page_repeat[OF h1 h2] h1 h2 show ?thesis by blast
qed

subsection \<open>Opening a path and the search cursor\<close>

lemma split_pages_cursor:
  "state_after (split_pages b) = Some b' \<Longrightarrow>
   priv_find_on_page_query b' = priv_find_on_page_query b
   \<and> priv_find_on_page_last_result b' = priv_find_on_page_last_result b
   \<and> history b' = history b"
  by (auto simp: split_pages_def split: if_splits option.splits prod.splits)

lemma set_page_content_cursor:
  "state_after (set_page_content content do_split b) = Some b' \<Longrightarrow>
   priv_find_on_page_query b' = priv_find_on_page_query b
   \<and> priv_find_on_page_last_result b' = priv_find_on_page_last_result b
   \<and> history b' = history b"
proof (cases do_split)
  case False
  assume "state_after (set_page_content content do_split b) = Some b'"
  with False show ?thesis by (auto simp: set_page_content_def Let_def split: if_splits)
next
  case True
  assume a: "state_after (set_page_content content do_split b) = Some b'"
  show ?thesis
  proof (cases "split_pages (b\<lparr>priv_page_content := content\<rparr>)")
    case (Returns u b2)
    then have "state_after (split_pages (b\<lparr>priv_page_content := content\<rparr>)) = Some b2" by simp
    from split_pages_cursor[OF this] a True Returns show ?thesis
      by (auto simp: set_page_content_def Let_def split: if_splits)
  next
    case (Raises e b2)
    then have "state_after (split_pages (b\<lparr>priv_page_content := content\<rparr>)) = Some b2" by simp
    from split_pages_cursor[OF this] a True Raises show ?thesis
      by (auto simp: set_page_content_def Let_def)
  next
    case Diverges
    with a True show ?thesis by (simp add: set_page_content_def Let_def)
  qed
qed

lemma open_path_try_cursor:
  "state_after (open_path_try E p b) = Some b' \<Longrightarrow>
   priv_find_on_page_query b' = priv_find_on_page_query b
   \<and> priv_find_on_page_last_result b' = priv_find_on_page_last_result b
   \<and> history b' = history b"
  by (auto simp: open_path_try_def split: if_splits sum.splits
        dest!: set_page_content_cursor)

lemma priv_open_path_cursor:
  assumes "state_after (priv_open_path E p b) = Some b'"
  shows "priv_find_on_page_query b' = priv_find_on_page_query b
   \<and> priv_find_on_page_last_result b' = priv_find_on_page_last_result b
   \<and> history b' = history b"
proof (cases "open_path_try E p b")
  case (Returns u b1)
  then have "state_after (open_path_try E p b) = Some b1" by simp
  from open_path_try_cursor[OF this] assms Returns show ?thesis
    by (simp add: priv_open_path_def)
next
  case Diverges
  with assms show ?thesis by (simp add: priv_open_path_def)
next
  case (Raises e b1)
  then have "state_after (open_path_try E p b) = Some b1" by simp
  from open_path_try_cursor[OF this]
  have b1: "priv_find_on_page_query b1 = priv_find_on_page_query b"
    "priv_find_on_page_last_result b1 = priv_find_on_page_last_result b"
    "history b1 = history b" by auto
  from assms Raises b1 show ?thesis
    by (auto simp: priv_open_path_def split: if_splits dest!: set_page_content_cursor)
qed

text \<open>
  Whatever the path and the environment, \<open>set_path\<close> leaves \<open>_find_on_page_query\<close> and
  \<open>_find_on_page_last_result\<close> as they were, and appends the resolved path to the history.
\<close>

lemma set_path_cursor:
  assumes "state_after (set_path E p b) = Some b'"
  shows "priv_find_on_page_query b' = priv_find_on_page_query b
   \<and> priv_find_on_page_last_result b' = priv_find_on_page_last_result b
   \<and> history b' = history b @ [(resolve_path E p b, time_now E)]"
proof -
  let ?b1 = "b\<lparr>history := history b @ [(resolve_path E p b, time_now E)]\<rparr>"
  show ?thesis
  proof (cases "priv_open_path E (resolve_path E p b) ?b1")
    case (Returns u b2)
    then have "state_after (priv_open_path E (resolve_path E p b) ?b1) = Some b2" by simp
    from priv_open_path_cursor[OF this] assms Returns show ?thesis
      by (auto simp: set_path_def Let_def)
  next
    case (Raises e b2)
    then have "state_after (priv_open_path E (resolve_path E p b) ?b1) = Some b2" by simp
    from priv_open_path_cursor[OF this] assms Raises show ?thesis
      by (auto simp: set_path_def Let_def)
  next
    case Diverges
    with assms show ?thesis by (simp add: set_path_def Let_def)
  qed
qed

text \<open>
  Claim C1 fails on the code. A browser is created in \<open>/\<close>, opens \<open>/doc.txt\<close> and finds
  \<open>foo\<close> on page 0. It then opens \<open>/doc.txt\<close> again: the query is still \<open>foo\<close> and the
  remembered page is still 0, and the \<open>find_next()\<close> that follows does not report "no
  match" but moves to page 2.
\<close>

theorem open_keeps_search_cursor:
  "init doc_env (Some 4) = Returns () started_browser
   \<and> open_path doc_env (py ''/doc.txt'') started_browser
       = Returns (py ''foo '') (doc_browser 0 None None)
   \<and> find_on_page ascii_db (py ''foo'') (doc_browser 0 None None)
       = Returns (Some (py ''foo '')) (doc_browser 0 (Some (py ''foo'')) (Some 0))
   \<and> open_path doc_env (py ''/doc.txt'') (doc_browser 0 (Some (py ''foo'')) (Some 0))
       = Returns (py ''foo '')
           (doc_browser 0 (Some (py ''foo'')) (Some 0)
              \<lparr>history := [(py ''/'', 0), (py ''/doc.txt'', 0), (py ''/doc.txt'', 0)]\<rparr>)
   \<and> find_next ascii_db
         (doc_browser 0 (Some (py ''foo'')) (Some 0)
            \<lparr>history := [(py ''/'', 0), (py ''/doc.txt'', 0), (py ''/doc.txt'', 0)]\<rparr>)
       = Returns (Some (py ''foo''))
           (doc_browser 2 (Some (py ''foo'')) (Some 2)
              \<lparr>history := [(py ''/'', 0), (py ''/doc.txt'', 0), (py ''/doc.txt'', 0)]\<rparr>)"
  using init_doc open_doc find_doc reopen_doc next_doc by simp

section \<open>Properties of opening a path\<close>

lemma load_raises_try:
  "load_raises E p e \<Longrightarrow> open_path_try E p b = Raises e b"
  by (auto simp: load_raises_def open_path_try_def split: if_splits sum.splits)

lemma not_found_text_nonempty: "not_found_text p \<noteq> []"
  by (simp add: not_found_text_def)

lemma contains_str_append: "contains_str (pre @ t) t"
proof (induction pre)
  case Nil
  show ?case by (cases t) simp_all
next
  case (Cons c pre)
  then show ?case by simp
qed

lemma set_page_content_split:
  assumes "viewport_size b = Some vsize" and "1 \<le> vsize" and "content \<noteq> []"
  shows "\<exists>pages e. set_page_content content True b
            = Returns () (b\<lparr>priv_page_content := content, viewport_pages := pages,
                             viewport_current_page :=
                               (if viewport_current_page b \<ge> int (length pages)
                                then int (length pages) - 1 else viewport_current_page b)\<rparr>)
          \<and> pages \<noteq> [] \<and> hd pages = (0, e) \<and> 0 < e \<and> e \<le> int (length content)
          \<and> min vsize (int (length content)) \<le> e"
proof -
  let ?b1 = "b\<lparr>priv_page_content := content\<rparr>"
  have v: "viewport_size ?b1 = Some vsize" using assms(1) by simp
  have c: "priv_page_content ?b1 \<noteq> []" using assms(3) by simp
  from split_pages_nonempty_body[OF v assms(2) c] obtain pages where
    r: "split_pages ?b1 = Returns () (?b1\<lparr>viewport_pages := pages\<rparr>)"
    and ch: "pages_chain 0 pages (int (length content))"
    and mn: "\<forall>p \<in> set pages. min (fst p + vsize) (int (length content)) \<le> snd p"
    by auto
  from assms(3) have "0 < int (length content)" by simp
  from pages_chain_nonempty[OF ch this] have ne: "pages \<noteq> []" .
  then have hd_in: "hd pages \<in> set pages" by simp
  from pages_chain_hd[OF ch ne] have f: "fst (hd pages) = 0" .
  from pages_chain_fst_lt_snd[OF ch hd_in] f have lt: "0 < snd (hd pages)" by simp
  from pages_chain_bounds[OF ch hd_in] have le: "snd (hd pages) \<le> int (length content)" by simp
  from mn hd_in f have m: "min vsize (int (length content)) \<le> snd (hd pages)" by fastforce
  have "set_page_content content True b
            = Returns () (b\<lparr>priv_page_content := content, viewport_pages := pages,
                             viewport_current_page :=
                               (if viewport_current_page b \<ge> int (length pages)
                                then int (length pages) - 1 else viewport_current_page b)\<rparr>)"
    using r by (simp add: set_page_content_def Let_def)
  moreover have "hd pages = (0, snd (hd pages))" using f by (cases "hd pages") simp
  ultimately show ?thesis using ne lt le m by blast
qed

text \<open>
  Claim C8, as the code has it. Let the viewport size be at least one and let the calls
  that \<open>_open_path\<close> makes for the resolved path fail with \<open>FileNotFoundError\<close>. Then
  \<open>open_path\<close> returns: the title is \<open>FileNotFoundError\<close>; the body is the explanation
  that ends with the resolved path, on one line if the path has no newline; the resolved
  path has been appended to the history, as \<open>set_path\<close> does in every environment,
  whether the load succeeds or not; the current page is 0; and the viewport returned is
  the first page of the body, a non-empty prefix of it, which is the whole body when the
  body has at most \<open>viewport_size\<close> characters.
\<close>

theorem open_path_not_found:
  assumes "viewport_size b = Some vsize" and "1 \<le> vsize"
    and "load_raises E (resolve_path E p b) FileNotFoundError"
  shows "\<exists>v b'. open_path E p b = Returns v b'
     \<and> page_title b' = Some (py ''FileNotFoundError'')
     \<and> priv_page_content b' = not_found_text (resolve_path E p b)
     \<and> contains_str (priv_page_content b') (resolve_path E p b)
     \<and> (10 \<notin> set (resolve_path E p b) \<longrightarrow> 10 \<notin> set (priv_page_content b'))
     \<and> history b' = history b @ [(resolve_path E p b, time_now E)]
     \<and> viewport_current_page b' = 0
     \<and> (\<exists>n. 0 < n \<and> n \<le> length (priv_page_content b') \<and> v = take n (priv_page_content b'))
     \<and> (int (length (priv_page_content b')) \<le> vsize \<longrightarrow> v = priv_page_content b')
     \<and> (\<forall>E' b2. state_after (set_path E' p b) = Some b2 \<longrightarrow>
            history b2 = history b @ [(resolve_path E' p b, time_now E')])"
proof -
  let ?p = "resolve_path E p b"
  let ?body = "not_found_text ?p"
  let ?b1 = "b\<lparr>history := history b @ [(?p, time_now E)]\<rparr>"
  let ?b2 = "?b1\<lparr>page_title := Some (py ''FileNotFoundError'')\<rparr>"
  have hist: "\<forall>E' b2. state_after (set_path E' p b) = Some b2 \<longrightarrow>
            history b2 = history b @ [(resolve_path E' p b, time_now E')]"
    using set_path_cursor by blast
  have "open_path_try E ?p ?b1 = Raises FileNotFoundError ?b1"
    using load_raises_try[OF assms(3)] .
  then have o: "priv_open_path E ?p ?b1 = set_page_content ?body True ?b2"
    by (simp add: priv_open_path_def)
  have v2: "viewport_size ?b2 = Some vsize" using assms(1) by simp
  from set_page_content_split[OF v2 assms(2) not_found_text_nonempty, of ?p]
  obtain pages e where
    s: "set_page_content ?body True ?b2
          = Returns () (?b2\<lparr>priv_page_content := ?body, viewport_pages := pages,
                             viewport_current_page :=
                               (if viewport_current_page ?b2 \<ge> int (length pages)
                                then int (length pages) - 1 else viewport_current_page ?b2)\<rparr>)"
    and ne: "pages \<noteq> []" and hd: "hd pages = (0, e)" and e: "0 < e" "e \<le> int (length ?body)"
    and m: "min vsize (int (length ?body)) \<le> e"
    by blast
  let ?b3 = "?b2\<lparr>priv_page_content := ?body, viewport_pages := pages,
                 viewport_current_page := 0, find_on_page_query := None,
                 find_on_page_viewport := None\<rparr>"
  have sp: "set_path E p b = Returns () ?b3"
    using o s by (simp add: set_path_def Let_def)
  have g: "py_getitem pages 0 = Inr (0, e)"
    using ne hd by (cases pages) (simp_all add: py_getitem_def)
  have sl: "py_slice ?body 0 e = take (nat e) ?body"
    using e by (simp add: py_slice_def py_clamp_index_def Let_def min_def)
  have vp: "viewport ?b3 = Inr (take (nat e) ?body)"
    using g sl by (simp add: viewport_def)
  have op: "open_path E p b = Returns (take (nat e) ?body) ?b3"
    using sp vp by (simp add: open_path_def)
  have c: "contains_str ?body ?p"
    unfolding not_found_text_def by (rule contains_str_append)
  have nl: "10 \<notin> set ?p \<longrightarrow> 10 \<notin> set ?body" by (simp add: not_found_text_def)
  have n: "0 < nat e \<and> nat e \<le> length ?body" using e by auto
  have w: "int (length ?body) \<le> vsize \<longrightarrow> take (nat e) ?body = ?body"
    using m e by auto
  have ex: "\<exists>n. 0 < n \<and> n \<le> length ?body \<and> take (nat e) ?body = take n ?body"
    using n by blast
  have "open_path E p b = Returns (take (nat e) ?body) ?b3
     \<and> page_title ?b3 = Some (py ''FileNotFoundError'')
     \<and> priv_page_content ?b3 = ?body
     \<and> contains_str (priv_page_content ?b3) ?p
     \<and> (10 \<notin> set ?p \<longrightarrow> 10 \<notin> set (priv_page_content ?b3))
     \<and> history ?b3 = history b @ [(?p, time_now E)]
     \<and> viewport_current_page ?b3 = 0
     \<and> (\<exists>n. 0 < n \<and> n \<le> length (priv_page_content ?b3)
            \<and> take (nat e) ?body = take n (priv_page_content ?b3))
     \<and> (int (length (priv_page_content ?b3)) \<le> vsize \<longrightarrow>
            take (nat e) ?body = priv_page_content ?b3)
     \<and> (\<forall>E' b2. state_after (set_path E' p b) = Some b2 \<longrightarrow>
            history b2 = history b @ [(resolve_path E' p b, time_now E')])"
    using op c nl ex w hist by simp
  then show ?thesis by blast
qed

lemmas open_eval =
  open_path_def set_path_def resolve_path_def path_def priv_open_path_def open_path_try_def
  set_page_content_def split_pages_def split_pages_loop.simps adjust_end_idx.simps
  py_getitem_def py_slice_def py_clamp_index_def page_break_chars_def viewport_def
  not_found_text_def doc_env_def doc_browser_def py_def Let_def

lemma missing_resolved:
  "resolve_path doc_env (py ''/missing.txt'') (doc_browser 0 None None) = py ''/missing.txt''"
  by (simp add: resolve_path_def doc_env_def py_def)

lemma missing_raises: "load_raises doc_env (py ''/missing.txt'') FileNotFoundError"
  by (simp add: load_raises_def doc_env_def py_def)

theorem open_path_not_found_witness:
  "viewport_size (doc_browser 0 None None) = Some 4 \<and> (1::int) \<le> 4
   \<and> load_raises doc_env (resolve_path doc_env (py ''/missing.txt'') (doc_browser 0 None None))
         FileNotFoundError
   \<and> (\<exists>v b'. open_path doc_env (py ''/missing.txt'') (doc_browser 0 None None) = Returns v b'
         \<and> page_title b' = Some (py ''FileNotFoundError'')
         \<and> contains_str (priv_page_content b') (py ''/missing.txt'')
         \<and> history b' = [(py ''/'', 0), (py ''/doc.txt'', 0), (py ''/missing.txt'', 0)])"
proof -
  have h1: "viewport_size (doc_browser 0 None None) = Some 4" by (simp add: doc_browser_def)
  have h2: "(1::int) \<le> 4" by simp
  have h3: "load_raises doc_env (resolve_path doc_env (py ''/missing.txt'') (doc_browser 0 None None))
         FileNotFoundError"
    using missing_raises by (simp add: missing_resolved)
  have t: "time_now doc_env = 0" by (simp add: doc_env_def)
  have h: "history (doc_browser 0 None None) = [(py ''/'', 0), (py ''/doc.txt'', 0)]"
    by (simp add: doc_browser_def)
  from open_path_not_found[OF h1 h2 h3] h1 h2 h3 show ?thesis
    unfolding missing_resolved t h by auto
qed

text \<open>
  Claim C8, as the specification states it, fails: the viewport need not contain the
  path. With the viewport size 4, opening the missing \<open>/missing.txt\<close> returns the first
  page of the explanation, which ends before the path begins.
\<close>

theorem open_path_not_found_counterexample:
  "load_raises doc_env (resolve_path doc_env (py ''/missing.txt'') (doc_browser 0 None None))
     FileNotFoundError
   \<and> open_path doc_env (py ''/missing.txt'') (doc_browser 0 None None)
       = Returns [35, 32, 26410, 25214, 21040, 25991, 20214, 65306, 32]
           (doc_browser 0 None None
              \<lparr>history := [(py ''/'', 0), (py ''/doc.txt'', 0), (py ''/missing.txt'', 0)],
               page_title := Some (py ''FileNotFoundError''),
               viewport_pages := [(0, 9), (9, 21)],
               priv_page_content :=
                 [35, 32, 26410, 25214, 21040, 25991, 20214, 65306, 32] @ py ''/missing.txt''\<rparr>)
   \<and> \<not> contains_str [35, 32, 26410, 25214, 21040, 25991, 20214, 65306, 32] (py ''/missing.txt'')"
proof -
  have a: "load_raises doc_env (resolve_path doc_env (py ''/missing.txt'') (doc_browser 0 None None))
     FileNotFoundError"
    using missing_raises by (simp add: missing_resolved)
  have b: "open_path doc_env (py ''/missing.txt'') (doc_browser 0 None None)
       = Returns [35, 32, 26410, 25214, 21040, 25991, 20214, 65306, 32]
           (doc_browser 0 None None
              \<lparr>history := [(py ''/'', 0), (py ''/doc.txt'', 0), (py ''/missing.txt'', 0)],
               page_title := Some (py ''FileNotFoundError''),
               viewport_pages := [(0, 9), (9, 21)],
               priv_page_content :=
                 [35, 32, 26410, 25214, 21040, 25991, 20214, 65306, 32] @ py ''/missing.txt''\<rparr>)"
    by (simp add: open_eval)
  have c: "\<not> contains_str [35, 32, 26410, 25214, 21040, 25991, 20214, 65306, 32] (py ''/missing.txt'')"
    by (simp add: py_def)
  from a b c show ?thesis by blast
qed

section \<open>Wrap-around of the search\<close>

lemma py_range_nat: "0 \<le> a \<Longrightarrow> py_range a b = map int [nat a..<nat b]"
proof (induction "nat (b - a)" arbitrary: a)
  case 0
  then show ?case by (simp add: py_range_def)
next
  case (Suc d)
  then have ab: "a < b" by linarith
  from Suc have d: "d = nat (b - (a + 1))" by linarith
  from Suc.prems have "0 \<le> a + 1" by simp
  from Suc.hyps(1)[OF d this] have "py_range (a + 1) b = map int [nat (a + 1)..<nat b]" .
  moreover have "py_range a b = a # py_range (a + 1) b"
    using ab by (simp add: py_range_def upto_rec1)
  moreover have "[nat a..<nat b] = nat a # [nat (a + 1)..<nat b]"
    using ab Suc.prems by (simp add: upt_conv_Cons nat_add_distrib)
  ultimately show ?case using Suc.prems by simp
qed

lemma re_search_compiled:
  "re_compile nq = Inr r \<Longrightarrow> re_search nq s = Inr (re_search_from r s)"
  by (simp add: re_search_def)

lemma scan_viewports_find:
  assumes "re_compile nq = Inr r"
  shows "\<forall>i \<in> set xs. i < length (viewport_pages b) \<Longrightarrow>
     scan_viewports U nq b (map int xs)
       = Inr (map_option int
               (find (\<lambda>i. re_search_from r (ncontent_of U (page_text b i))) xs))"
proof (induction xs)
  case Nil
  show ?case by simp
next
  case (Cons i xs)
  then have g: "py_getitem (viewport_pages b) (int i) = Inr (viewport_pages b ! i)"
    by (simp add: py_getitem_def)
  from Cons show ?case
    by (simp add: g re_search_compiled[OF assms] page_text_def Let_def)
qed

lemma find_Some_in_set: "find P xs = Some j \<Longrightarrow> j \<in> set xs \<and> P j"
  by (induction xs) (auto split: if_splits)

lemma find_rotated:
  assumes "i < n" and "P i" and "s \<le> n"
  shows "\<exists>j. find P ([s..<n] @ [0..<s]) = Some j \<and> j < n \<and> P j"
proof (cases "find P ([s..<n] @ [0..<s])")
  case None
  from assms have "i \<in> set ([s..<n] @ [0..<s])" by auto
  with assms(2) have "\<exists>x. x \<in> set ([s..<n] @ [0..<s]) \<and> P x" by blast
  with None find_None_iff[of P "[s..<n] @ [0..<s]"] show ?thesis by blast
next
  case (Some j)
  from find_Some_in_set[OF Some] assms(3) Some show ?thesis by auto
qed


lemma page_matches_compiled:
  assumes "page_matches U q b i"
  shows "py_strip U (nquery_of U q) \<noteq> []"
    and "\<exists>r. re_compile (nquery_of U q) = Inr r
            \<and> (\<forall>k. page_matches U q b k
                     = re_search_from r (ncontent_of U (page_text b k)))"
proof -
  from assms show ne: "py_strip U (nquery_of U q) \<noteq> []" by (simp add: page_matches_def)
  from assms obtain r where r: "re_compile (nquery_of U q) = Inr r"
    by (cases "re_compile (nquery_of U q)") (auto simp: page_matches_def re_search_def)
  with ne have "\<forall>k. page_matches U q b k = re_search_from r (ncontent_of U (page_text b k))"
    by (simp add: page_matches_def re_search_def)
  with r show "\<exists>r. re_compile (nquery_of U q) = Inr r
            \<and> (\<forall>k. page_matches U q b k
                     = re_search_from r (ncontent_of U (page_text b k)))" by blast
qed

lemma scan_start_le:
  "\<forall>r. priv_find_on_page_last_result b = Some r \<longrightarrow> 0 \<le> r \<Longrightarrow>
   scan_start b \<le> length (viewport_pages b)"
  by (auto simp: scan_start_def split: option.splits)

lemma find_next_step:
  assumes q: "priv_find_on_page_query b = Some q"
    and m: "i < length (viewport_pages b)" "page_matches U q b i"
    and wf: "\<forall>r. priv_find_on_page_last_result b = Some r \<longrightarrow> 0 \<le> r"
  shows "\<exists>j. find (page_matches U q b)
               ([scan_start b..<length (viewport_pages b)] @ [0..<scan_start b]) = Some j
           \<and> j < length (viewport_pages b) \<and> page_matches U q b j
           \<and> find_next U b
               = Returns (Some (page_text b j))
                   (b\<lparr>viewport_current_page := int j,
                      priv_find_on_page_last_result := Some (int j)\<rparr>)"
proof -
  let ?n = "length (viewport_pages b)"
  let ?s = "scan_start b"
  let ?xs = "[?s..<?n] @ [0..<?s]"
  from page_matches_compiled[OF m(2)] obtain r where
    ne: "py_strip U (nquery_of U q) \<noteq> []"
    and r: "re_compile (nquery_of U q) = Inr r"
    and pm: "\<forall>k. page_matches U q b k = re_search_from r (ncontent_of U (page_text b k))"
    by blast
  from find_rotated[OF m(1), of "page_matches U q b" ?s, OF m(2) scan_start_le[OF wf]]
  obtain j where j: "find (page_matches U q b) ?xs = Some j" "j < ?n" "page_matches U q b j"
    by blast
  have sv: "(case priv_find_on_page_last_result b of
               None \<Rightarrow> 0
             | Some r \<Rightarrow> if r + 1 \<ge> int ?n then 0 else r + 1) = int ?s"
    using wf by (auto simp: scan_start_def split: option.splits)
  have idxs: "py_range (int ?s) (int ?n) @ py_range 0 (int ?s) = map int ?xs"
    by (simp add: py_range_nat)
  have inr: "\<forall>i \<in> set ?xs. i < ?n" using scan_start_le[OF wf] by auto
  have fm: "find (\<lambda>i. re_search_from r (ncontent_of U (page_text b i))) ?xs
              = find (page_matches U q b) ?xs"
    using pm by (intro find_cong) simp_all
  have "scan_viewports U (nquery_of U q) b (map int ?xs) = Inr (Some (int j))"
    using scan_viewports_find[OF r inr, of U] fm j(1) by simp
  then have fv: "find_next_viewport U (Some q) (int ?s) b = Inr (Some (int j))"
    using ne idxs by (simp add: find_next_viewport_def Let_def)
  have vp: "viewport (b\<lparr>viewport_current_page := int j,
                      priv_find_on_page_last_result := Some (int j)\<rparr>)
              = Inr (page_text b j)"
    using j(2) by (simp add: viewport_def py_getitem_def page_text_def)
  have "find_next U b
               = Returns (Some (page_text b j))
                   (b\<lparr>viewport_current_page := int j,
                      priv_find_on_page_last_result := Some (int j)\<rparr>)"
    unfolding find_next_def q sv using fv vp by (simp add: Let_def)
  with j show ?thesis by blast
qed


lemma find_filter_hd:
  "find P xs = (case filter P xs of [] \<Rightarrow> None | x # ys \<Rightarrow> Some x)"
  by (induction xs) auto

lemma filter_upt_split:
  assumes "a < length (filter P [0..<n])"
  shows "filter P [0..<Suc (filter P [0..<n] ! a)] = take (Suc a) (filter P [0..<n])
       \<and> filter P [Suc (filter P [0..<n] ! a)..<n] = drop (Suc a) (filter P [0..<n])"
proof -
  define ms where "ms = filter P [0..<n]"
  define k where "k = ms ! a"
  define A where "A = filter P [0..<k]"
  define B where "B = filter P [Suc k..<n]"
  from assms have al: "a < length ms" by (simp add: ms_def)
  then have "k \<in> set ms" unfolding k_def by (rule nth_mem)
  then have k: "k < n" "P k" by (auto simp: ms_def)
  from k(1) have "[0..<n] = [0..<k] @ [k..<n]"
    using upt_add_eq_append[of 0 k "n - k"] by simp
  also from k(1) have "[k..<n] = k # [Suc k..<n]" by (rule upt_conv_Cons)
  finally have "ms = filter P ([0..<k] @ k # [Suc k..<n])" by (simp add: ms_def)
  with k(2) have ms: "ms = A @ k # B" by (simp add: A_def B_def)
  have d: "distinct ms" by (simp add: ms_def)
  from ms have "ms ! length A = k" by simp
  moreover from ms have "length A < length ms" by simp
  moreover have "ms ! a = k" by (simp add: k_def)
  ultimately have a: "a = length A"
    using d al nth_eq_iff_index_eq[of ms a "length A"] by simp
  have t: "take (Suc a) ms = A @ [k]" using a ms by simp
  have dr: "drop (Suc a) ms = B" using a ms by simp
  have "filter P [0..<Suc k] = A @ [k]" using k(2) by (simp add: A_def)
  with t dr show ?thesis unfolding B_def k_def ms_def by simp
qed

lemma rotate_hd:
  assumes "a < length ms"
  shows "(case drop (Suc a) ms @ take (Suc a) ms of [] \<Rightarrow> None | x # ys \<Rightarrow> Some x)
         = Some (ms ! (Suc a mod length ms))"
proof (cases "Suc a < length ms")
  case True
  then have "drop (Suc a) ms = ms ! Suc a # drop (Suc (Suc a)) ms"
    by (simp add: Cons_nth_drop_Suc)
  with True show ?thesis by simp
next
  case False
  with assms have e: "Suc a = length ms" by simp
  then have "drop (Suc a) ms = []" "take (Suc a) ms = ms" by simp_all
  moreover from assms obtain x xs where "ms = x # xs" by (cases ms) auto
  ultimately show ?thesis using e by simp
qed

lemma find_after_match:
  assumes "a < length (filter P [0..<n])"
  shows "find P ([(if n \<le> Suc (filter P [0..<n] ! a) then 0 else Suc (filter P [0..<n] ! a))..<n]
                 @ [0..<(if n \<le> Suc (filter P [0..<n] ! a) then 0 else Suc (filter P [0..<n] ! a))])
         = Some (filter P [0..<n] ! (Suc a mod length (filter P [0..<n])))"
proof -
  let ?ms = "filter P [0..<n]"
  let ?k = "?ms ! a"
  from assms have "?k \<in> set ?ms" by (rule nth_mem)
  then have k: "?k < n" by auto
  from filter_upt_split[OF assms] have
    A: "filter P [0..<Suc ?k] = take (Suc a) ?ms" and B: "filter P [Suc ?k..<n] = drop (Suc a) ?ms"
    by auto
  show ?thesis
  proof (cases "n \<le> Suc ?k")
    case True
    with k have e: "Suc ?k = n" by simp
    with B have "drop (Suc a) ?ms = []" by simp
    moreover from A e have "take (Suc a) ?ms = ?ms" by simp
    ultimately have "filter P ([0..<n] @ [0..<0]) = drop (Suc a) ?ms @ take (Suc a) ?ms"
      by simp
    with True rotate_hd[OF assms] show ?thesis
      by (simp only: find_filter_hd if_True)
  next
    case False
    have "filter P ([Suc ?k..<n] @ [0..<Suc ?k]) = drop (Suc a) ?ms @ take (Suc a) ?ms"
      using A B by simp
    with False rotate_hd[OF assms] show ?thesis
      by (simp only: find_filter_hd if_False)
  qed
qed


lemma page_matches_moved:
  "page_matches U q (b\<lparr>viewport_current_page := c, priv_find_on_page_last_result := l\<rparr>)
     = page_matches U q b"
  by (rule ext) (simp add: page_matches_def page_text_def)

lemma page_text_moved:
  "page_text (b\<lparr>viewport_current_page := c, priv_find_on_page_last_result := l\<rparr>) = page_text b"
  by (rule ext) (simp add: page_text_def)

lemma find_next_from_match:
  assumes q: "priv_find_on_page_query b = Some q"
    and a: "a < length (filter (page_matches U q b) [0..<length (viewport_pages b)])"
  shows "find_next U (b\<lparr>viewport_current_page := c,
              priv_find_on_page_last_result :=
                Some (int (filter (page_matches U q b) [0..<length (viewport_pages b)] ! a))\<rparr>)
         = Returns
             (Some (page_text b
                (filter (page_matches U q b) [0..<length (viewport_pages b)]
                   ! (Suc a mod length (filter (page_matches U q b) [0..<length (viewport_pages b)])))))
             (b\<lparr>viewport_current_page :=
                  int (filter (page_matches U q b) [0..<length (viewport_pages b)]
                   ! (Suc a mod length (filter (page_matches U q b) [0..<length (viewport_pages b)]))),
                priv_find_on_page_last_result :=
                  Some (int (filter (page_matches U q b) [0..<length (viewport_pages b)]
                   ! (Suc a mod length (filter (page_matches U q b) [0..<length (viewport_pages b)]))))\<rparr>)"
proof -
  define n where "n = length (viewport_pages b)"
  define ms where "ms = filter (page_matches U q b) [0..<n]"
  define k where "k = ms ! a"
  define b1 where "b1 = b\<lparr>viewport_current_page := c,
              priv_find_on_page_last_result := Some (int k)\<rparr>"
  from a have al: "a < length ms" by (simp add: ms_def n_def)
  then have "k \<in> set ms" unfolding k_def by (rule nth_mem)
  then have k: "k < n" "page_matches U q b k" by (auto simp: ms_def)
  have q1: "priv_find_on_page_query b1 = Some q" using q by (simp add: b1_def)
  have n1: "length (viewport_pages b1) = n" by (simp add: b1_def n_def)
  have pm: "page_matches U q b1 = page_matches U q b"
    unfolding b1_def by (rule page_matches_moved)
  have pt: "page_text b1 = page_text b" unfolding b1_def by (rule page_text_moved)
  have wf: "\<forall>r. priv_find_on_page_last_result b1 = Some r \<longrightarrow> 0 \<le> r"
    by (simp add: b1_def)
  have k1: "k < length (viewport_pages b1)" using k(1) n1 by simp
  have m1: "page_matches U q b1 k" using k(2) pm by simp
  have ss: "scan_start b1 = (if n \<le> Suc k then 0 else Suc k)"
    unfolding scan_start_def n1 by (auto simp: b1_def)
  from find_next_step[OF q1 k1 m1 wf] obtain j where
    j: "find (page_matches U q b1)
          ([scan_start b1..<length (viewport_pages b1)] @ [0..<scan_start b1]) = Some j"
    and f: "find_next U b1 = Returns (Some (page_text b1 j))
              (b1\<lparr>viewport_current_page := int j,
                   priv_find_on_page_last_result := Some (int j)\<rparr>)"
    by blast
  from find_after_match[of a "page_matches U q b" n] al
  have "find (page_matches U q b) ([(if n \<le> Suc k then 0 else Suc k)..<n]
                 @ [0..<(if n \<le> Suc k then 0 else Suc k)])
         = Some (ms ! (Suc a mod length ms))"
    unfolding ms_def k_def by simp
  with j have "j = ms ! (Suc a mod length ms)" unfolding pm n1 ss by simp
  with f have "find_next U b1 = Returns (Some (page_text b (ms ! (Suc a mod length ms))))
              (b\<lparr>viewport_current_page := int (ms ! (Suc a mod length ms)),
                   priv_find_on_page_last_result := Some (int (ms ! (Suc a mod length ms)))\<rparr>)"
    unfolding pt by (simp add: b1_def)
  then show ?thesis unfolding b1_def k_def ms_def n_def .
qed

lemma find_next_matches_cycle:
  assumes q: "priv_find_on_page_query b = Some q"
  shows "a < length (filter (page_matches U q b) [0..<length (viewport_pages b)]) \<Longrightarrow>
     find_next_matches U (Suc t)
        (b\<lparr>viewport_current_page := c,
           priv_find_on_page_last_result :=
             Some (int (filter (page_matches U q b) [0..<length (viewport_pages b)] ! a))\<rparr>)
     = Some (b\<lparr>viewport_current_page :=
                  int (filter (page_matches U q b) [0..<length (viewport_pages b)]
                   ! ((a + Suc t) mod length (filter (page_matches U q b) [0..<length (viewport_pages b)]))),
                priv_find_on_page_last_result :=
                  Some (int (filter (page_matches U q b) [0..<length (viewport_pages b)]
                   ! ((a + Suc t) mod length (filter (page_matches U q b) [0..<length (viewport_pages b)]))))\<rparr>)"
proof (induction t arbitrary: a c)
  case 0
  from find_next_from_match[OF q 0, of c] show ?case by simp
next
  case (Suc t)
  define L where "L = length (filter (page_matches U q b) [0..<length (viewport_pages b)])"
  from Suc.prems have "0 < L" unfolding L_def by linarith
  then have a': "Suc a mod L < L" by simp
  have "(Suc a mod L + Suc t) mod L = (Suc a + Suc t) mod L"
    by (rule mod_add_left_eq)
  also have "Suc a + Suc t = a + Suc (Suc t)" by simp
  finally have e: "(Suc a mod L + Suc t) mod L = (a + Suc (Suc t)) mod L" .
  from Suc.IH[OF a'[unfolded L_def]] find_next_from_match[OF q Suc.prems, of c]
  show ?case
    unfolding L_def[symmetric] e
    by (subst find_next_matches.simps) simp
qed

text \<open>
  Claim C7. Let a query be active, let at least one page match it, and let the
  remembered page, if there is one, not be negative. Then \<open>find_next()\<close> returns the
  viewport of the first matching page in the order that starts at the remembered page
  plus one (at 0 if that is past the last page or if no page is remembered) and runs
  circularly through all pages; every call in a row of \<open>find_next()\<close> calls returns a
  match; and if the remembered page is itself a matching page, then after at least one
  and at most \<open>len(viewport_pages)\<close> calls the browser is back on that page.
\<close>

theorem find_next_wraps:
  assumes q: "priv_find_on_page_query b = Some q"
    and m: "i < length (viewport_pages b)" "page_matches U q b i"
    and wf: "\<forall>r. priv_find_on_page_last_result b = Some r \<longrightarrow> 0 \<le> r"
  shows "(\<exists>j. find (page_matches U q b)
               ([scan_start b..<length (viewport_pages b)] @ [0..<scan_start b]) = Some j
           \<and> j < length (viewport_pages b) \<and> page_matches U q b j
           \<and> find_next U b
               = Returns (Some (page_text b j))
                   (b\<lparr>viewport_current_page := int j,
                      priv_find_on_page_last_result := Some (int j)\<rparr>))
     \<and> set ([scan_start b..<length (viewport_pages b)] @ [0..<scan_start b])
         = {0..<length (viewport_pages b)}
     \<and> (\<forall>t. \<exists>b'. find_next_matches U t b = Some b')
     \<and> (\<forall>k. priv_find_on_page_last_result b = Some (int k)
              \<and> k < length (viewport_pages b) \<and> page_matches U q b k \<longrightarrow>
            (\<exists>t b'. 1 \<le> t \<and> t \<le> length (viewport_pages b)
                \<and> find_next_matches U t b = Some b'
                \<and> viewport_current_page b' = int k
                \<and> priv_find_on_page_last_result b' = Some (int k)))"
proof -
  define n where "n = length (viewport_pages b)"
  define ms where "ms = filter (page_matches U q b) [0..<n]"
  note cyc = find_next_matches_cycle[OF q, of _ U, folded n_def, folded ms_def]
  from find_next_step[OF q m wf] obtain j where
    j: "find (page_matches U q b) ([scan_start b..<n] @ [0..<scan_start b]) = Some j"
       "j < n" "page_matches U q b j"
       "find_next U b = Returns (Some (page_text b j))
                   (b\<lparr>viewport_current_page := int j,
                      priv_find_on_page_last_result := Some (int j)\<rparr>)"
    unfolding n_def by blast
  have p1: "\<exists>j. find (page_matches U q b) ([scan_start b..<n] @ [0..<scan_start b]) = Some j
           \<and> j < n \<and> page_matches U q b j
           \<and> find_next U b
               = Returns (Some (page_text b j))
                   (b\<lparr>viewport_current_page := int j,
                      priv_find_on_page_last_result := Some (int j)\<rparr>)"
    using j by blast
  have "scan_start b \<le> n" unfolding n_def by (rule scan_start_le[OF wf])
  then have p2: "set ([scan_start b..<n] @ [0..<scan_start b]) = {0..<n}" by auto
  have p3: "\<forall>t. \<exists>b'. find_next_matches U t b = Some b'"
  proof
    fix t
    show "\<exists>b'. find_next_matches U t b = Some b'"
    proof (cases t)
      case 0
      then show ?thesis by simp
    next
      case (Suc t')
      from j(2,3) have "j \<in> set ms" by (simp add: ms_def)
      then obtain a where a: "a < length ms" "ms ! a = j" by (auto simp: in_set_conv_nth)
      have s: "find_next_matches U (Suc t') b
                 = find_next_matches U t'
                     (b\<lparr>viewport_current_page := int j,
                        priv_find_on_page_last_result := Some (int (ms ! a))\<rparr>)"
        using j(4) a(2) by simp
      show ?thesis
      proof (cases t')
        case 0
        with s Suc show ?thesis by simp
      next
        case (Suc t'')
        from cyc[OF a(1), of t'' "int j"] s Suc \<open>t = Suc t'\<close> show ?thesis by simp
      qed
    qed
  qed
  have p4: "\<forall>k. priv_find_on_page_last_result b = Some (int k)
              \<and> k < n \<and> page_matches U q b k \<longrightarrow>
            (\<exists>t b'. 1 \<le> t \<and> t \<le> n
                \<and> find_next_matches U t b = Some b'
                \<and> viewport_current_page b' = int k
                \<and> priv_find_on_page_last_result b' = Some (int k))"
  proof (intro allI impI)
    fix k
    assume k: "priv_find_on_page_last_result b = Some (int k)
              \<and> k < n \<and> page_matches U q b k"
    then have "k \<in> set ms" by (simp add: ms_def)
    then obtain a where a: "a < length ms" "ms ! a = k" by (auto simp: in_set_conv_nth)
    then obtain t0 where t0: "length ms = Suc t0" by (cases "length ms") auto
    have le: "length ms \<le> n" unfolding ms_def using length_filter_le[of _ "[0..<n]"] by simp
    have b: "b = b\<lparr>viewport_current_page := viewport_current_page b,
                   priv_find_on_page_last_result := Some (int (ms ! a))\<rparr>"
      using k a(2) by simp
    have "(a + length ms) mod length ms = a" using a(1) by simp
    then have "(a + Suc t0) mod length ms = a" using t0 by simp
    with cyc[OF a(1), of t0 "viewport_current_page b"] b a(2)
    have "find_next_matches U (Suc t0) b
            = Some (b\<lparr>viewport_current_page := int k,
                       priv_find_on_page_last_result := Some (int k)\<rparr>)"
      by simp
    with t0 le show "\<exists>t b'. 1 \<le> t \<and> t \<le> n
                \<and> find_next_matches U t b = Some b'
                \<and> viewport_current_page b' = int k
                \<and> priv_find_on_page_last_result b' = Some (int k)"
      by (intro exI[of _ "Suc t0"] exI[of _ "b\<lparr>viewport_current_page := int k,
                       priv_find_on_page_last_result := Some (int k)\<rparr>"]) simp
  qed
  from p1 p2 p3 p4 show ?thesis unfolding n_def by blast
qed

lemma doc_page0_matches:
  "page_matches ascii_db (py ''foo'') (doc_browser 0 (Some (py ''foo'')) (Some 0)) 0"
  by code_simp

theorem find_next_wraps_witness:
  "priv_find_on_page_query (doc_browser 0 (Some (py ''foo'')) (Some 0)) = Some (py ''foo'')
   \<and> (0::nat) < length (viewport_pages (doc_browser 0 (Some (py ''foo'')) (Some 0)))
   \<and> page_matches ascii_db (py ''foo'') (doc_browser 0 (Some (py ''foo'')) (Some 0)) 0
   \<and> priv_find_on_page_last_result (doc_browser 0 (Some (py ''foo'')) (Some 0)) = Some 0
   \<and> (\<forall>t. \<exists>b'. find_next_matches ascii_db t (doc_browser 0 (Some (py ''foo'')) (Some 0)) = Some b')
   \<and> (\<exists>t b'. 1 \<le> t \<and> t \<le> 3
         \<and> find_next_matches ascii_db t (doc_browser 0 (Some (py ''foo'')) (Some 0)) = Some b'
         \<and> viewport_current_page b' = 0
         \<and> priv_find_on_page_last_result b' = Some 0)"
proof -
  let ?b = "doc_browser 0 (Some (py ''foo'')) (Some 0)"
  have h1: "priv_find_on_page_query ?b = Some (py ''foo'')" by (simp add: doc_browser_def)
  have n: "length (viewport_pages ?b) = 3" by (simp add: doc_browser_def)
  have h2: "0 < length (viewport_pages ?b)" by (simp add: n)
  have l: "priv_find_on_page_last_result ?b = Some (int 0)" by (simp add: doc_browser_def)
  have h4: "\<forall>r. priv_find_on_page_last_result ?b = Some r \<longrightarrow> 0 \<le> r"
    by (simp add: doc_browser_def)
  from find_next_wraps[OF h1 h2 doc_page0_matches h4]
  have a: "\<forall>t. \<exists>b'. find_next_matches ascii_db t ?b = Some b'"
    and c: "\<forall>k. priv_find_on_page_last_result ?b = Some (int k)
              \<and> k < length (viewport_pages ?b) \<and> page_matches ascii_db (py ''foo'') ?b k \<longrightarrow>
            (\<exists>t b'. 1 \<le> t \<and> t \<le> length (viewport_pages ?b)
                \<and> find_next_matches ascii_db t ?b = Some b'
                \<and> viewport_current_page b' = int k
                \<and> priv_find_on_page_last_result b' = Some (int k))"
    by blast+
  from c l h2 doc_page0_matches
  have "\<exists>t b'. 1 \<le> t \<and> t \<le> length (viewport_pages ?b)
                \<and> find_next_matches ascii_db t ?b = Some b'
                \<and> viewport_current_page b' = int 0
                \<and> priv_find_on_page_last_result b' = Some (int 0)"
    by blast
  with a h1 h2 l doc_page0_matches show ?thesis unfolding n by simp
qed

section \<open>Normalised queries\<close>

subsection \<open>Queries without a word character\<close>

lemma re_sub_star_id: "42 \<notin> set q \<Longrightarrow> re_sub_star q = q"
  unfolding re_sub_star_def by (induction q) auto

lemma re_split_nonword_sep:
  "\<forall>c \<in> set q. \<not> is_word U c \<Longrightarrow> re_split_nonword U True q = [[]]"
  by (induction q) auto

lemma re_split_nonword_blank:
  "\<forall>c \<in> set q. \<not> is_word U c \<Longrightarrow>
   re_split_nonword U False q = (if q = [] then [[]] else [[], []])"
  by (cases q) (auto simp: re_split_nonword_sep)

lemma is_space_32: "is_space U 32"
  by (simp add: is_space_def)

lemma blank_strip: "py_strip U [32, 32] = []"
  by (simp add: py_strip_def is_space_32)

lemma blank_lower: "py_lower U [32, 32] = [32, 32]"
  by (simp add: py_lower_def lower_at_def)

lemma blank_nquery:
  assumes "\<forall>c \<in> set q. \<not> is_word U c \<and> c \<noteq> 42"
  shows "nquery_of U q = [32, 32]"
proof -
  from assms have s: "re_sub_star q = q" by (intro re_sub_star_id) auto
  from assms have "\<forall>c \<in> set q. \<not> is_word U c" by blast
  from re_split_nonword_blank[OF this]
  have "py_strip U (py_join [32] (re_split_nonword U False q)) = []"
    by (auto simp: py_strip_def is_space_32)
  then show ?thesis
    unfolding nquery_of_def s by (simp add: Let_def py_def blank_lower)
qed

lemma blank_find_next_viewport:
  assumes "\<forall>c \<in> set q. \<not> is_word U c \<and> c \<noteq> 42"
  shows "find_next_viewport U (Some q) s b = Inr None"
  by (simp add: find_next_viewport_def blank_nquery[OF assms] blank_strip)

lemma blank_find_on_page:
  assumes "\<forall>c \<in> set q. \<not> is_word U c \<and> c \<noteq> 42"
  shows "find_on_page U q b
           = Returns None (b\<lparr>priv_find_on_page_query := Some q,
                               priv_find_on_page_last_result := None\<rparr>)"
proof (cases "Some q = priv_find_on_page_query b
         \<and> Some (viewport_current_page b) = priv_find_on_page_last_result b")
  case True
  then have q: "priv_find_on_page_query b = Some q" by simp
  then have e: "b\<lparr>priv_find_on_page_query := Some q, priv_find_on_page_last_result := None\<rparr>
        = b\<lparr>priv_find_on_page_last_result := None\<rparr>"
    by (cases b) simp
  from True have "find_on_page U q b = find_next U b" by (simp add: find_on_page_def)
  also have "\<dots> = Returns None (b\<lparr>priv_find_on_page_last_result := None\<rparr>)"
    by (simp add: find_next_def q blank_find_next_viewport[OF assms])
  finally show ?thesis using e by simp
next
  case False
  then show ?thesis
    unfolding find_on_page_def
    by (simp only: if_False) (simp add: Let_def blank_find_next_viewport[OF assms])
qed

subsection \<open>A search that starts on the current page\<close>

lemma find_next_viewport_scan:
  assumes m: "i < length (viewport_pages b)" "page_matches U q b i"
    and s: "s \<le> length (viewport_pages b)"
  shows "\<exists>j. find (page_matches U q b) ([s..<length (viewport_pages b)] @ [0..<s]) = Some j
           \<and> j < length (viewport_pages b) \<and> page_matches U q b j
           \<and> find_next_viewport U (Some q) (int s) b = Inr (Some (int j))"
proof -
  let ?n = "length (viewport_pages b)"
  let ?xs = "[s..<?n] @ [0..<s]"
  from page_matches_compiled[OF m(2)] obtain r where
    ne: "py_strip U (nquery_of U q) \<noteq> []"
    and r: "re_compile (nquery_of U q) = Inr r"
    and pm: "\<forall>k. page_matches U q b k = re_search_from r (ncontent_of U (page_text b k))"
    by blast
  from find_rotated[OF m(1), of "page_matches U q b" s, OF m(2) s]
  obtain j where j: "find (page_matches U q b) ?xs = Some j" "j < ?n" "page_matches U q b j"
    by blast
  have idxs: "py_range (int s) (int ?n) @ py_range 0 (int s) = map int ?xs"
    by (simp add: py_range_nat)
  have inr: "\<forall>i \<in> set ?xs. i < ?n" using s by auto
  have fm: "find (\<lambda>i. re_search_from r (ncontent_of U (page_text b i))) ?xs
              = find (page_matches U q b) ?xs"
    using pm by (intro find_cong) simp_all
  have "scan_viewports U (nquery_of U q) b (map int ?xs) = Inr (Some (int j))"
    using scan_viewports_find[OF r inr, of U] fm j(1) by simp
  then have "find_next_viewport U (Some q) (int s) b = Inr (Some (int j))"
    using ne idxs by (simp add: find_next_viewport_def Let_def)
  with j show ?thesis by blast
qed

lemma page_matches_queried:
  "page_matches U q (b\<lparr>priv_find_on_page_query := x\<rparr>) = page_matches U q b"
  by (rule ext) (simp add: page_matches_def page_text_def)

lemma page_text_queried: "page_text (b\<lparr>priv_find_on_page_query := x\<rparr>) = page_text b"
  by (rule ext) (simp add: page_text_def)

lemma find_on_page_step:
  assumes m: "i < length (viewport_pages b)" "page_matches U q b i"
    and cur: "0 \<le> viewport_current_page b"
      "viewport_current_page b < int (length (viewport_pages b))"
    and wf: "\<forall>r. priv_find_on_page_last_result b = Some r \<longrightarrow> 0 \<le> r"
  shows "\<exists>j. j < length (viewport_pages b) \<and> page_matches U q b j
           \<and> find_on_page U q b
               = Returns (Some (page_text b j))
                   (b\<lparr>priv_find_on_page_query := Some q,
                      viewport_current_page := int j,
                      priv_find_on_page_last_result := Some (int j)\<rparr>)"
proof (cases "Some q = priv_find_on_page_query b
         \<and> Some (viewport_current_page b) = priv_find_on_page_last_result b")
  case True
  then have q: "priv_find_on_page_query b = Some q" by simp
  from find_next_step[OF q m wf] obtain j where
    j: "j < length (viewport_pages b)" "page_matches U q b j"
       "find_next U b = Returns (Some (page_text b j))
                   (b\<lparr>viewport_current_page := int j,
                      priv_find_on_page_last_result := Some (int j)\<rparr>)"
    by blast
  have e: "b\<lparr>priv_find_on_page_query := Some q, viewport_current_page := int j,
              priv_find_on_page_last_result := Some (int j)\<rparr>
        = b\<lparr>viewport_current_page := int j,
              priv_find_on_page_last_result := Some (int j)\<rparr>"
    using q by (cases b) simp
  from True have "find_on_page U q b = find_next U b" by (simp add: find_on_page_def)
  with j e show ?thesis by auto
next
  case False
  define b0 where "b0 = b\<lparr>priv_find_on_page_query := Some q\<rparr>"
  define s where "s = nat (viewport_current_page b)"
  have n0: "length (viewport_pages b0) = length (viewport_pages b)" by (simp add: b0_def)
  have pm: "page_matches U q b0 = page_matches U q b"
    unfolding b0_def by (rule page_matches_queried)
  have pt: "page_text b0 = page_text b" unfolding b0_def by (rule page_text_queried)
  have c0: "viewport_current_page b0 = int s" using cur(1) by (simp add: b0_def s_def)
  have sl: "s \<le> length (viewport_pages b0)" using cur by (simp add: s_def n0)
  have m0: "i < length (viewport_pages b0)" "page_matches U q b0 i" using m pm n0 by simp_all
  from find_next_viewport_scan[OF m0 sl] obtain j where
    j: "j < length (viewport_pages b0)" "page_matches U q b0 j"
       "find_next_viewport U (Some q) (int s) b0 = Inr (Some (int j))"
    by blast
  have vp: "viewport (b0\<lparr>viewport_current_page := int j,
                      priv_find_on_page_last_result := Some (int j)\<rparr>)
              = Inr (page_text b0 j)"
    using j(1) by (simp add: viewport_def py_getitem_def page_text_def)
  from False have "find_on_page U q b =
        (case find_next_viewport U (Some q) (viewport_current_page b0) b0 of
              Inl e \<Rightarrow> Raises e b0
            | Inr None \<Rightarrow> Returns None (b0\<lparr>priv_find_on_page_last_result := None\<rparr>)
            | Inr (Some viewport_match) \<Rightarrow>
                (let b1 = b0\<lparr>viewport_current_page := viewport_match,
                              priv_find_on_page_last_result := Some viewport_match\<rparr>
                 in case viewport b1 of
                      Inl e \<Rightarrow> Raises e b1
                    | Inr v \<Rightarrow> Returns (Some v) b1))"
    unfolding find_on_page_def b0_def by (simp only: if_False Let_def)
  also have "\<dots> = Returns (Some (page_text b0 j))
                   (b0\<lparr>viewport_current_page := int j,
                      priv_find_on_page_last_result := Some (int j)\<rparr>)"
    unfolding c0 j(3) using vp by (simp add: Let_def)
  finally have "find_on_page U q b = Returns (Some (page_text b j))
                   (b\<lparr>priv_find_on_page_query := Some q,
                      viewport_current_page := int j,
                      priv_find_on_page_last_result := Some (int j)\<rparr>)"
    unfolding pt by (simp add: b0_def)
  with j(1,2) n0 pm show ?thesis by auto
qed

subsection \<open>The lone star\<close>

lemma star_nquery: "nquery_of U (py ''*'') = py ''.* ''"
  by (simp add: nquery_of_def re_sub_star_def py_def is_word_def is_space_def py_strip_def
        py_lower_def lower_at_def Let_def)

lemma star_matches: "page_matches U (py ''*'') b i"
  by (simp add: page_matches_def star_nquery ncontent_of_def re_search_def)
     (simp add: py_def py_strip_def is_space_def is_other_meta_def)

subsection \<open>How a page is normalised\<close>

lemma re_split_nonword_nonempty: "re_split_nonword U f s \<noteq> []"
  by (induction s arbitrary: f) (auto split: list.splits)

lemma py_join_cons: "py_join sep ((c # p) # ps) = c # py_join sep (p # ps)"
  by (cases ps) simp_all

lemma py_join_split_collapse:
  "py_join [32] (re_split_nonword U f s) = collapse_nonword U f s"
proof (induction s arbitrary: f)
  case Nil
  show ?case by simp
next
  case (Cons c cs)
  show ?case
  proof (cases "is_word U c")
    case True
    obtain p ps where e: "re_split_nonword U False cs = p # ps"
      using re_split_nonword_nonempty[of U False cs] by (cases "re_split_nonword U False cs") auto
    with True Cons[of False] show ?thesis by (simp add: py_join_cons)
  next
    case False
    obtain p ps where e: "re_split_nonword U True cs = p # ps"
      using re_split_nonword_nonempty[of U True cs] by (cases "re_split_nonword U True cs") auto
    with False Cons[of True] show ?thesis by (cases f) auto
  qed
qed

lemma collapse_append:
  "collapse_nonword U f (pre @ rest)
     = collapse_nonword U f pre
       @ collapse_nonword U (if pre = [] then f else \<not> is_word U (last pre)) rest"
  by (induction pre arbitrary: f) auto

lemma collapse_chars: "c \<in> set (collapse_nonword U f s) \<Longrightarrow> is_word U c \<or> c = 32"
  by (induction s arbitrary: f) (auto split: if_splits)

lemma collapse_words:
  "\<forall>c \<in> set w. is_word U c \<Longrightarrow>
   collapse_nonword U f (w @ rest) = w @ collapse_nonword U (if w = [] then f else False) rest"
  by (induction w arbitrary: f) auto

lemma collapse_ends_space:
  "pre \<noteq> [] \<Longrightarrow> \<not> is_word U (last pre) \<Longrightarrow>
   collapse_nonword U False pre \<noteq> [] \<and> last (collapse_nonword U False pre) = 32"
proof (induction pre rule: rev_induct)
  case Nil
  then show ?case by simp
next
  case (snoc d pre)
  then have d: "\<not> is_word U d" by simp
  show ?case
  proof (cases "pre = []")
    case True
    with d show ?thesis by simp
  next
    case False
    show ?thesis
    proof (cases "is_word U (last pre)")
      case True
      with False d show ?thesis by (simp add: collapse_append)
    next
      case nw: False
      from snoc.IH[OF False nw] False nw d show ?thesis by (simp add: collapse_append)
    qed
  qed
qed

lemma strip_core:
  assumes "M \<noteq> []" and "\<not> P (hd M)" and "\<not> P (last M)"
  shows "rev (dropWhile P (rev (dropWhile P (A @ M @ C))))
           = dropWhile P A @ M @ rev (dropWhile P (rev C))"
proof -
  from assms(1,2) have m: "dropWhile P (M @ C) = M @ C" by (cases M) auto
  have 1: "dropWhile P (A @ M @ C) = dropWhile P A @ M @ C"
    using m by (induction A) auto
  from assms(1,3) have r: "dropWhile P (rev M @ rev (dropWhile P A))
        = rev M @ rev (dropWhile P A)"
    by (cases "rev M") (auto simp: hd_rev)
  have 2: "dropWhile P (rev C @ rev M @ rev (dropWhile P A))
        = dropWhile P (rev C) @ rev M @ rev (dropWhile P A)"
    using r by (induction "rev C" arbitrary: C) (auto simp: dropWhile_append)
  show ?thesis by (simp add: 1 2)
qed

lemma last_dropWhile: "dropWhile P xs \<noteq> [] \<Longrightarrow> last (dropWhile P xs) = last xs"
  by (induction xs) (auto split: if_splits)


lemma py_lower_split:
  "py_lower U (A @ W @ C)
     = concat (map (lower_at U (A @ W @ C)) [0..<length A])
       @ concat (map (lower_at U (A @ W @ C)) [length A..<length A + length W])
       @ concat (map (lower_at U (A @ W @ C))
           [length A + length W..<length A + length W + length C])"
proof -
  have "[0..<length A + length W + length C]
          = [0..<length A] @ [length A..<length A + length W]
            @ [length A + length W..<length A + length W + length C]"
    using upt_add_eq_append[of 0 "length A + length W" "length C"]
      upt_add_eq_append[of 0 "length A" "length W"] by simp
  then show ?thesis by (simp add: py_lower_def add.assoc)
qed

lemma lower_at_plain:
  "i < length s \<Longrightarrow> s ! i < 128 \<Longrightarrow> \<not> (65 \<le> s ! i \<and> s ! i \<le> 90) \<Longrightarrow>
   lower_at U s i = [s ! i]"
  by (simp add: lower_at_def Let_def)

lemma lower_middle:
  assumes "\<forall>c \<in> set W. c < 128 \<and> \<not> (65 \<le> c \<and> c \<le> 90)"
  shows "concat (map (lower_at U (A @ W @ C)) [length A..<length A + length W]) = W"
proof -
  have "map (lower_at U (A @ W @ C)) [length A..<length A + length W]
          = map (\<lambda>c. [c]) W"
  proof (rule nth_equalityI)
    show "length (map (lower_at U (A @ W @ C)) [length A..<length A + length W])
            = length (map (\<lambda>c. [c]) W)" by simp
  next
    fix k
    assume "k < length (map (lower_at U (A @ W @ C)) [length A..<length A + length W])"
    then have k: "k < length W" by simp
    then have n: "(A @ W @ C) ! (length A + k) = W ! k" by (simp add: nth_append)
    from k assms have "W ! k < 128 \<and> \<not> (65 \<le> W ! k \<and> W ! k \<le> 90)" by simp
    with n k have "lower_at U (A @ W @ C) (length A + k) = [W ! k]"
      by (intro lower_at_plain[THEN trans]) simp_all
    with k show "map (lower_at U (A @ W @ C)) [length A..<length A + length W] ! k
            = map (\<lambda>c. [c]) W ! k" by simp
  qed
  then show ?thesis by simp
qed

lemma lower_left_space:
  assumes "A \<noteq> []" and "last A = 32"
  shows "\<exists>L. concat (map (lower_at U (A @ R)) [0..<length A]) = L @ [32]"
proof -
  from assms(1) obtain n where n: "length A = Suc n" by (cases A) auto
  with assms have "(A @ R) ! n = 32" by (simp add: nth_append last_conv_nth)
  with n have "lower_at U (A @ R) n = [32]" by (simp add: lower_at_def Let_def)
  with n show ?thesis by simp
qed

lemma lower_right_no_newline:
  assumes "\<forall>c \<in> set C. c \<noteq> 10" and "\<forall>s i. i < length s \<and> 128 \<le> s ! i \<longrightarrow> 10 \<notin> set (uni_lower U s i)"
  shows "10 \<notin> set (concat (map (lower_at U (P @ C)) [length P..<length P + length C]))"
proof -
  have "\<forall>i \<in> set [length P..<length P + length C]. 10 \<notin> set (lower_at U (P @ C) i)"
  proof
    fix i assume "i \<in> set [length P..<length P + length C]"
    then have i: "length P \<le> i" "i < length P + length C" by auto
    then have "(P @ C) ! i = C ! (i - length P)" "i - length P < length C"
      by (auto simp: nth_append)
    then have "(P @ C) ! i \<in> set C" by simp
    with assms(1) have "(P @ C) ! i \<noteq> 10" by blast
    moreover from i have "i < length (P @ C)" by simp
    ultimately show "10 \<notin> set (lower_at U (P @ C) i)"
      using assms(2) by (auto simp: lower_at_def Let_def)
  qed
  then show ?thesis by auto
qed

lemma re_search_from_append:
  "re_match_here r Y \<Longrightarrow> re_search_from r (X @ Y)"
proof (induction X)
  case Nil
  then show ?case by (cases Y) simp_all
next
  case (Cons x X)
  then show ?case by simp
qed

lemma re_match_any_star:
  "10 \<notin> set Y \<Longrightarrow> re_match_here rest Z \<Longrightarrow>
   re_match_here ((AnyChar, True) # rest) (Y @ Z)"
proof (induction Y)
  case Nil
  then show ?case by (cases Z) simp_all
next
  case (Cons y Y)
  then show ?case by simp
qed


lemma foo_star_nquery: "nquery_of U (py ''foo*'') = py '' foo.* ''"
  by (simp add: nquery_of_def re_sub_star_def py_def is_word_def is_space_def py_strip_def
        py_lower_def lower_at_def Let_def)

lemma foo_star_compiled:
  "re_compile (py '' foo.* '')
     = Inr [(Lit 32, False), (Lit 102, False), (Lit 111, False), (Lit 111, False),
            (AnyChar, True), (Lit 32, False)]"
  by (simp add: py_def is_other_meta_def)

lemma foo_word_page:
  assumes t: "text = pre @ py ''foo'' @ post"
    and w: "pre = [] \<or> \<not> is_word U (last pre)"
    and u: "\<forall>s i. i < length s \<and> 128 \<le> s ! i \<longrightarrow> 10 \<notin> set (uni_lower U s i)"
  shows "re_search (py '' foo.* '') (ncontent_of U text) = Inr True"
proof -
  define W :: pystr where "W = [102, 111, 111]"
  define A where "A = collapse_nonword U False pre"
  define C where "C = collapse_nonword U False post"
  define A2 where "A2 = dropWhile (is_space U) A"
  define C2 where "C2 = rev (dropWhile (is_space U) (rev C))"
  define LA where "LA = concat (map (lower_at U (A2 @ W @ C2)) [0..<length A2])"
  define LC where "LC = concat (map (lower_at U (A2 @ W @ C2))
           [length A2 + length W..<length A2 + length W + length C2])"
  have Wpy: "py ''foo'' = W" by (simp add: py_def W_def)
  have Ww: "\<forall>c \<in> set W. is_word U c" by (simp add: W_def is_word_def)
  have Wne: "W \<noteq> []" by (simp add: W_def)
  have "collapse_nonword U False text
          = A @ collapse_nonword U (if pre = [] then False else \<not> is_word U (last pre)) (W @ post)"
    unfolding t Wpy A_def by (rule collapse_append)
  also have "collapse_nonword U (if pre = [] then False else \<not> is_word U (last pre)) (W @ post)
          = W @ C"
    using collapse_words[OF Ww] Wne by (simp add: C_def)
  finally have J: "py_join [32] (re_split_nonword U False text) = A @ W @ C"
    by (simp add: py_join_split_collapse)
  have "py_strip U (A @ W @ C) = A2 @ W @ C2"
    unfolding py_strip_def A2_def C2_def
    by (rule strip_core) (simp_all add: W_def is_space_def)
  with J have S: "py_strip U (py_join [32] (re_split_nonword U False text)) = A2 @ W @ C2"
    by simp
  have "\<forall>c \<in> set W. c < 128 \<and> \<not> (65 \<le> c \<and> c \<le> 90)" by (simp add: W_def)
  from lower_middle[OF this, of U A2 C2] py_lower_split[of U A2 W C2]
  have L: "py_lower U (A2 @ W @ C2) = LA @ W @ LC" by (simp add: LA_def LC_def)
  have nc: "ncontent_of U text = [32] @ LA @ W @ LC @ [32]"
    unfolding ncontent_of_def S L by simp
  have C10: "\<forall>c \<in> set C2. c \<noteq> 10"
  proof
    fix c assume "c \<in> set C2"
    then have "c \<in> set C" unfolding C2_def by (auto dest: set_dropWhileD)
    then have "is_word U c \<or> c = 32" unfolding C_def by (rule collapse_chars)
    then show "c \<noteq> 10" by (auto simp: is_word_def)
  qed
  from lower_right_no_newline[OF C10 u, of "A2 @ W"]
  have LC10: "10 \<notin> set LC" by (simp add: LC_def)
  have "re_match_here [(Lit 32, False)] [32]" by simp
  from re_match_any_star[OF LC10 this]
  have "re_match_here [(Lit 32, False), (Lit 102, False), (Lit 111, False), (Lit 111, False),
            (AnyChar, True), (Lit 32, False)] ([32] @ W @ LC @ [32])"
    by (simp add: W_def)
  note mh = this
  have "\<exists>X. ncontent_of U text = X @ ([32] @ W @ LC @ [32])"
  proof (cases "A2 = []")
    case True
    then have "LA = []" by (simp add: LA_def)
    with nc show ?thesis by simp
  next
    case False
    then have Ane: "A \<noteq> []" by (auto simp: A2_def)
    with w have p: "pre \<noteq> []" "\<not> is_word U (last pre)" by (auto simp: A_def)
    from collapse_ends_space[OF p] have "last A = 32" by (simp add: A_def)
    with False last_dropWhile[of "is_space U" A] have "last A2 = 32" by (simp add: A2_def)
    from lower_left_space[OF False this, of U "W @ C2"] obtain L where "LA = L @ [32]"
      by (auto simp: LA_def)
    with nc have "ncontent_of U text = ([32] @ L) @ ([32] @ W @ LC @ [32])" by simp
    then show ?thesis by blast
  qed
  then obtain X where X: "ncontent_of U text = X @ ([32] @ W @ LC @ [32])" by blast
  from re_search_from_append[OF mh, of X] X
  show ?thesis by (simp add: re_search_def foo_star_compiled)
qed

lemma foobar_page_matches:
  assumes "page_text b i = pre @ py ''foobar'' @ post"
    and "pre = [] \<or> \<not> is_word U (last pre)"
    and "\<forall>s i. i < length s \<and> 128 \<le> s ! i \<longrightarrow> 10 \<notin> set (uni_lower U s i)"
  shows "page_matches U (py ''foo*'') b i"
proof -
  have "py ''foobar'' = py ''foo'' @ py ''bar''" by (simp add: py_def)
  with assms(1) have "page_text b i = pre @ py ''foo'' @ (py ''bar'' @ post)" by simp
  from foo_word_page[OF this assms(2,3)]
  show ?thesis
    by (simp add: page_matches_def foo_star_nquery)
       (simp add: py_def py_strip_def is_space_def)
qed

text \<open>
  Claim C6, as the code has it. A query without a word character and without a star,
  in particular the empty query and a query of white space only, has a blank normalised
  form: \<open>find_on_page\<close> returns no match and leaves the page index as it is. The query
  \<open>*\<close> alone is normalised to the pattern \<open>.*\<close> followed by a space, which is not blank
  and which every page matches: in a browser whose current page is within the pages,
  \<open>find_on_page("*")\<close> returns a viewport. And the query \<open>foo*\<close> matches every page in
  whose text \<open>foobar\<close> stands at the start of a word (at the start of the page or after
  a non-word character), so that \<open>find_on_page("foo*")\<close> returns the viewport of a
  matching page; this is for a Unicode table whose lower-casing never yields a newline.
\<close>

theorem find_on_page_normalised:
  "((\<forall>c \<in> set q. \<not> is_word U c \<and> c \<noteq> 42) \<longrightarrow>
       find_on_page U q b
         = Returns None (b\<lparr>priv_find_on_page_query := Some q,
                             priv_find_on_page_last_result := None\<rparr>))
   \<and> find_on_page U [] b
         = Returns None (b\<lparr>priv_find_on_page_query := Some [],
                             priv_find_on_page_last_result := None\<rparr>)
   \<and> (set q \<subseteq> {9, 10, 11, 12, 13, 32} \<longrightarrow>
       find_on_page U q b
         = Returns None (b\<lparr>priv_find_on_page_query := Some q,
                             priv_find_on_page_last_result := None\<rparr>))
   \<and> (0 \<le> viewport_current_page b
       \<and> viewport_current_page b < int (length (viewport_pages b))
       \<and> (\<forall>r. priv_find_on_page_last_result b = Some r \<longrightarrow> 0 \<le> r) \<longrightarrow>
       (\<exists>j. j < length (viewport_pages b)
          \<and> find_on_page U (py ''*'') b
              = Returns (Some (page_text b j))
                  (b\<lparr>priv_find_on_page_query := Some (py ''*''),
                     viewport_current_page := int j,
                     priv_find_on_page_last_result := Some (int j)\<rparr>)))
   \<and> (0 \<le> viewport_current_page b
       \<and> viewport_current_page b < int (length (viewport_pages b))
       \<and> (\<forall>r. priv_find_on_page_last_result b = Some r \<longrightarrow> 0 \<le> r)
       \<and> i < length (viewport_pages b)
       \<and> page_text b i = pre @ py ''foobar'' @ post
       \<and> (pre = [] \<or> \<not> is_word U (last pre))
       \<and> (\<forall>s k. k < length s \<and> 128 \<le> s ! k \<longrightarrow> 10 \<notin> set (uni_lower U s k)) \<longrightarrow>
       page_matches U (py ''foo*'') b i
       \<and> (\<exists>j. j < length (viewport_pages b) \<and> page_matches U (py ''foo*'') b j
          \<and> find_on_page U (py ''foo*'') b
              = Returns (Some (page_text b j))
                  (b\<lparr>priv_find_on_page_query := Some (py ''foo*''),
                     viewport_current_page := int j,
                     priv_find_on_page_last_result := Some (int j)\<rparr>)))"
proof -
  have a: "(\<forall>c \<in> set q. \<not> is_word U c \<and> c \<noteq> 42) \<longrightarrow>
       find_on_page U q b
         = Returns None (b\<lparr>priv_find_on_page_query := Some q,
                             priv_find_on_page_last_result := None\<rparr>)"
    using blank_find_on_page by blast
  have e: "find_on_page U [] b
         = Returns None (b\<lparr>priv_find_on_page_query := Some [],
                             priv_find_on_page_last_result := None\<rparr>)"
    by (rule blank_find_on_page) simp
  have w: "set q \<subseteq> {9, 10, 11, 12, 13, 32} \<longrightarrow>
       find_on_page U q b
         = Returns None (b\<lparr>priv_find_on_page_query := Some q,
                             priv_find_on_page_last_result := None\<rparr>)"
  proof
    assume s: "set q \<subseteq> {9, 10, 11, 12, 13, 32}"
    have "\<forall>c \<in> set q. \<not> is_word U c \<and> c \<noteq> 42"
    proof
      fix c assume "c \<in> set q"
      with s have "c \<in> {9, 10, 11, 12, 13, 32}" by blast
      then show "\<not> is_word U c \<and> c \<noteq> 42" by (auto simp: is_word_def)
    qed
    then show "find_on_page U q b
         = Returns None (b\<lparr>priv_find_on_page_query := Some q,
                             priv_find_on_page_last_result := None\<rparr>)"
      by (rule blank_find_on_page)
  qed
  have st: "0 \<le> viewport_current_page b
       \<and> viewport_current_page b < int (length (viewport_pages b))
       \<and> (\<forall>r. priv_find_on_page_last_result b = Some r \<longrightarrow> 0 \<le> r) \<longrightarrow>
       (\<exists>j. j < length (viewport_pages b)
          \<and> find_on_page U (py ''*'') b
              = Returns (Some (page_text b j))
                  (b\<lparr>priv_find_on_page_query := Some (py ''*''),
                     viewport_current_page := int j,
                     priv_find_on_page_last_result := Some (int j)\<rparr>))"
  proof
    assume h: "0 \<le> viewport_current_page b
       \<and> viewport_current_page b < int (length (viewport_pages b))
       \<and> (\<forall>r. priv_find_on_page_last_result b = Some r \<longrightarrow> 0 \<le> r)"
    then have n: "0 < length (viewport_pages b)" by auto
    from find_on_page_step[OF n star_matches, of U] h
    show "\<exists>j. j < length (viewport_pages b)
          \<and> find_on_page U (py ''*'') b
              = Returns (Some (page_text b j))
                  (b\<lparr>priv_find_on_page_query := Some (py ''*''),
                     viewport_current_page := int j,
                     priv_find_on_page_last_result := Some (int j)\<rparr>)"
      by blast
  qed
  have f: "0 \<le> viewport_current_page b
       \<and> viewport_current_page b < int (length (viewport_pages b))
       \<and> (\<forall>r. priv_find_on_page_last_result b = Some r \<longrightarrow> 0 \<le> r)
       \<and> i < length (viewport_pages b)
       \<and> page_text b i = pre @ py ''foobar'' @ post
       \<and> (pre = [] \<or> \<not> is_word U (last pre))
       \<and> (\<forall>s k. k < length s \<and> 128 \<le> s ! k \<longrightarrow> 10 \<notin> set (uni_lower U s k)) \<longrightarrow>
       page_matches U (py ''foo*'') b i
       \<and> (\<exists>j. j < length (viewport_pages b) \<and> page_matches U (py ''foo*'') b j
          \<and> find_on_page U (py ''foo*'') b
              = Returns (Some (page_text b j))
                  (b\<lparr>priv_find_on_page_query := Some (py ''foo*''),
                     viewport_current_page := int j,
                     priv_find_on_page_last_result := Some (int j)\<rparr>))"
  proof
    assume h: "0 \<le> viewport_current_page b
       \<and> viewport_current_page b < int (length (viewport_pages b))
       \<and> (\<forall>r. priv_find_on_page_last_result b = Some r \<longrightarrow> 0 \<le> r)
       \<and> i < length (viewport_pages b)
       \<and> page_text b i = pre @ py ''foobar'' @ post
       \<and> (pre = [] \<or> \<not> is_word U (last pre))
       \<and> (\<forall>s k. k < length s \<and> 128 \<le> s ! k \<longrightarrow> 10 \<notin> set (uni_lower U s k))"
    then have m: "page_matches U (py ''foo*'') b i"
      by (intro foobar_page_matches[of b i pre post U]) blast+
    from h have i: "i < length (viewport_pages b)" by blast
    from find_on_page_step[OF i m] h m
    show "page_matches U (py ''foo*'') b i
       \<and> (\<exists>j. j < length (viewport_pages b) \<and> page_matches U (py ''foo*'') b j
          \<and> find_on_page U (py ''foo*'') b
              = Returns (Some (page_text b j))
                  (b\<lparr>priv_find_on_page_query := Some (py ''foo*''),
                     viewport_current_page := int j,
                     priv_find_on_page_last_result := Some (int j)\<rparr>))"
      by blast
  qed
  from a e w st f show ?thesis by blast
qed

theorem find_on_page_normalised_witness:
  "find_on_page ascii_db (py ''  '') foobar_browser
     = Returns None (foobar_browser\<lparr>priv_find_on_page_query := Some (py ''  ''),
                                     priv_find_on_page_last_result := None\<rparr>)
   \<and> page_text foobar_browser 0 = py ''some '' @ py ''foobar'' @ py '' here''
   \<and> page_matches ascii_db (py ''foo*'') foobar_browser 0
   \<and> (\<exists>j. j < length (viewport_pages foobar_browser)
         \<and> find_on_page ascii_db (py ''*'') foobar_browser
             = Returns (Some (page_text foobar_browser j))
                 (foobar_browser\<lparr>priv_find_on_page_query := Some (py ''*''),
                    viewport_current_page := int j,
                    priv_find_on_page_last_result := Some (int j)\<rparr>))"
proof -
  have h1: "\<forall>c \<in> set (py ''  ''). \<not> is_word ascii_db c \<and> c \<noteq> 42"
    by (simp add: py_def is_word_def)
  have h2: "0 \<le> viewport_current_page foobar_browser
       \<and> viewport_current_page foobar_browser < int (length (viewport_pages foobar_browser))
       \<and> (\<forall>r. priv_find_on_page_last_result foobar_browser = Some r \<longrightarrow> 0 \<le> r)"
    by (simp add: foobar_browser_def fresh_browser_def)
  have h3: "(0::nat) < length (viewport_pages foobar_browser)"
    by (simp add: foobar_browser_def fresh_browser_def)
  have h4: "page_text foobar_browser 0 = py ''some '' @ py ''foobar'' @ py '' here''"
    by (simp add: page_text_def foobar_browser_def fresh_browser_def py_slice_def
          py_clamp_index_def py_def)
  have h5: "py ''some '' = [] \<or> \<not> is_word ascii_db (last (py ''some ''))"
    by (simp add: py_def is_word_def)
  have h6: "\<forall>s k. k < length s \<and> 128 \<le> s ! k \<longrightarrow> 10 \<notin> set (uni_lower ascii_db s k)"
    by (simp add: ascii_db_def)
  from find_on_page_normalised[of "py ''  ''" ascii_db foobar_browser 0 "py ''some ''" "py '' here''"]
    h1 h2 h3 h4 h5 h6
  show ?thesis by blast
qed

text \<open>
  Claim C6, as the specification states it, fails in two places. On page 1 of the
  example document, whose text is \<open>bar\<close> and a space, \<open>find_on_page("*")\<close> returns that
  page as a match. And the page \<open>xfoobar\<close> contains \<open>foobar\<close>, but \<open>find_on_page("foo*")\<close>
  reports no match on it.
\<close>

theorem find_on_page_normalised_counterexample:
  "find_on_page ascii_db (py ''*'') (doc_browser 1 None None)
     = Returns (Some (py ''bar '')) (doc_browser 1 (Some (py ''*'')) (Some 1))
   \<and> contains_str (page_text glued_browser 0) (py ''foobar'')
   \<and> find_on_page ascii_db (py ''foo*'') glued_browser
       = Returns None (glued_browser\<lparr>priv_find_on_page_query := Some (py ''foo*''),
                                      priv_find_on_page_last_result := None\<rparr>)"
proof -
  have a: "find_on_page ascii_db (py ''*'') (doc_browser 1 None None)
     = Returns (Some (py ''bar '')) (doc_browser 1 (Some (py ''*'')) (Some 1))"
    by code_simp
  have b: "contains_str (page_text glued_browser 0) (py ''foobar'')"
    by code_simp
  have c: "find_on_page ascii_db (py ''foo*'') glued_browser
       = Returns None (glued_browser\<lparr>priv_find_on_page_query := Some (py ''foo*''),
                                      priv_find_on_page_last_result := None\<rparr>)"
    by code_simp
  from a b c show ?thesis by blast
qed

end
